theory Spec2Isabelle
  imports Main "HOL-Library.Sublist" "HOL-Library.AList"
begin

section \<open>Python values, exceptions and containers\<close>

text \<open>
  The routing-table document is whatever \<^verbatim>\<open>resp.json()\<close> returns: a tree of
  JSON values. Objects are association lists in key order (a Python dict keeps
  insertion order); lookup takes the entry \<^const>\<open>map_of\<close> finds. JSON numbers
  are kept as integers: no operation of the program looks inside a number, it only
  tests it for zero and fails on every method call or subscript.
\<close>

datatype json =
    JNull
  | JBool bool
  | JNum int
  | JStr string
  | JList "json list"
  | JDict "(string \<times> json) list"

text \<open>The built-in exceptions the program can meet.\<close>

datatype error = KeyError | IndexError | TypeError | AttributeError | ValueError

text \<open>Sequencing of a computation that may raise: the first exception wins.\<close>

definition ebind :: "error + 'a \<Rightarrow> ('a \<Rightarrow> error + 'b) \<Rightarrow> error + 'b" where
  "ebind m f = (case m of Inl e \<Rightarrow> Inl e | Inr x \<Rightarrow> f x)"

text \<open>Truth value of a JSON value, as \<^verbatim>\<open>not x\<close> and \<^verbatim>\<open>if x\<close> test it.\<close>

fun truthy :: "json \<Rightarrow> bool" where
  "truthy JNull = False"
| "truthy (JBool b) = b"
| "truthy (JNum n) = (n \<noteq> 0)"
| "truthy (JStr s) = (s \<noteq> [])"
| "truthy (JList xs) = (xs \<noteq> [])"
| "truthy (JDict kvs) = (kvs \<noteq> [])"

text \<open>\<^verbatim>\<open>x.get(k, default)\<close>: only a dict has the method.\<close>

fun dict_get :: "json \<Rightarrow> string \<Rightarrow> json \<Rightarrow> error + json" where
  "dict_get (JDict kvs) k dflt = Inr (case map_of kvs k of None \<Rightarrow> dflt | Some v \<Rightarrow> v)"
| "dict_get _ k dflt = Inl AttributeError"

text \<open>
  \<^verbatim>\<open>x[k]\<close> with a string key: a missing key of a dict is a KeyError, a list or a
  string indexed by a string is a TypeError, as is any value that has no subscript.
\<close>

fun getitem_str :: "json \<Rightarrow> string \<Rightarrow> error + json" where
  "getitem_str (JDict kvs) k = (case map_of kvs k of None \<Rightarrow> Inl KeyError | Some v \<Rightarrow> Inr v)"
| "getitem_str _ k = Inl TypeError"

text \<open>
  \<^verbatim>\<open>x[0]\<close>: the first item of a list, the first character of a string, IndexError
  when empty; a dict parsed from JSON has string keys only, so \<^verbatim>\<open>0\<close> is a missing
  key.
\<close>

fun getitem_0 :: "json \<Rightarrow> error + json" where
  "getitem_0 (JList xs) = (case xs of [] \<Rightarrow> Inl IndexError | x # _ \<Rightarrow> Inr x)"
| "getitem_0 (JStr s) = (case s of [] \<Rightarrow> Inl IndexError | c # _ \<Rightarrow> Inr (JStr [c]))"
| "getitem_0 (JDict kvs) = Inl KeyError"
| "getitem_0 _ = Inl TypeError"

text \<open>
  \<^verbatim>\<open>for x in v\<close>: a list yields its items, a dict its keys, a string its
  characters; nothing else is iterable.
\<close>

fun py_iter :: "json \<Rightarrow> error + json list" where
  "py_iter (JList xs) = Inr xs"
| "py_iter (JDict kvs) = Inr (map (\<lambda>kv. JStr (fst kv)) kvs)"
| "py_iter (JStr s) = Inr (map (\<lambda>c. JStr [c]) s)"
| "py_iter _ = Inl TypeError"

text \<open>Indexing a Python list: \<^verbatim>\<open>xs[i]\<close> for \<^verbatim>\<open>i \<ge> 0\<close>, and \<^verbatim>\<open>xs[-1]\<close>.\<close>

definition py_nth :: "'a list \<Rightarrow> nat \<Rightarrow> error + 'a" where
  "py_nth xs i = (if i < length xs then Inr (xs ! i) else Inl IndexError)"

definition py_last :: "'a list \<Rightarrow> error + 'a" where
  "py_last xs = (if xs = [] then Inl IndexError else Inr (last xs))"

text \<open>
  \<^verbatim>\<open>s.split(sep)\<close> with a separator: the pieces between the non-overlapping
  occurrences of \<^verbatim>\<open>sep\<close>, found left to right; \<open>cur\<close> is the piece being read.
  The program only splits on the non-empty separators \<^verbatim>\<open>'//'\<close>, \<^verbatim>\<open>'/'\<close> and
  \<^verbatim>\<open>'.'\<close>.
\<close>

function split_from :: "string \<Rightarrow> string \<Rightarrow> string \<Rightarrow> string list" where
  "split_from sep cur [] = [cur]"
| "split_from sep cur (c # cs) =
     (if sep \<noteq> [] \<and> prefix sep (c # cs)
      then cur # split_from sep [] (drop (length sep) (c # cs))
      else split_from sep (cur @ [c]) cs)"
  by pat_completeness auto
termination
  by (relation "measure (\<lambda>(sep, cur, s). length s)") auto

definition py_split :: "string \<Rightarrow> string \<Rightarrow> string list" where
  "py_split sep s = split_from sep [] s"

text \<open>\<^verbatim>\<open>v.split(sep)\<close> on a JSON value: only a string has the method.\<close>

fun json_split :: "json \<Rightarrow> string \<Rightarrow> error + string list" where
  "json_split (JStr s) sep = Inr (py_split sep s)"
| "json_split _ sep = Inl AttributeError"

text \<open>
  A Python set of strings is kept as the list of its elements in the order they were
  first added. The order in which a \<^verbatim>\<open>for\<close> loop meets them depends on the hashes
  (randomised per process): it is a parameter \<open>order\<close> of the model, a function
  from the insertion history to the iteration sequence, of which only
  \<open>iteration_order\<close> is known.
\<close>

definition set_add :: "'a \<Rightarrow> 'a list \<Rightarrow> 'a list" where
  "set_add x s = (if x \<in> set s then s else s @ [x])"

definition iteration_order :: "('a list \<Rightarrow> 'a list) \<Rightarrow> bool" where
  "iteration_order order \<longleftrightarrow>
     (\<forall>xs. distinct xs \<longrightarrow> distinct (order xs) \<and> set (order xs) = set xs)"

text \<open>One possible order: the elements as they were added.\<close>

definition insertion_order :: "'a list \<Rightarrow> 'a list" where
  "insertion_order xs = xs"

text \<open>Another: the latest addition first.\<close>

definition reverse_order :: "'a list \<Rightarrow> 'a list" where
  "reverse_order xs = rev xs"


section \<open>Step 2: \<^verbatim>\<open>extract_routes\<close>\<close>

text \<open>A route entry is the dict \<^verbatim>\<open>{"prefix": v}\<close>.\<close>

type_synonym route = "(string \<times> json) list"

definition route_entry :: "json \<Rightarrow> error + route" where
  "route_entry r = ebind (dict_get r ''prefix'' (JStr [])) (\<lambda>v. Inr [(''prefix'', v)])"

text \<open>\<^verbatim>\<open>for route in ipv4_routes: routes.append({"prefix": route.get("prefix", "")})\<close>\<close>

fun append_routes :: "json list \<Rightarrow> route list \<Rightarrow> error + route list" where
  "append_routes [] routes = Inr routes"
| "append_routes (r # rs) routes =
     ebind (route_entry r) (\<lambda>e. append_routes rs (routes @ [e]))"

text \<open>The body of \<^verbatim>\<open>for table in ...\<close>, the same in both walks.\<close>

definition table_routes :: "json \<Rightarrow> route list \<Rightarrow> error + route list" where
  "table_routes table routes =
     ebind (dict_get table ''bgp-inet:ipv4-routes'' (JDict [])) (\<lambda>container.
     ebind (dict_get container ''ipv4-route'' (JList [])) (\<lambda>ipv4_routes.
     ebind (py_iter ipv4_routes) (\<lambda>rs. append_routes rs routes)))"

fun tables_loop :: "json list \<Rightarrow> route list \<Rightarrow> error + route list" where
  "tables_loop [] routes = Inr routes"
| "tables_loop (t # ts) routes = ebind (table_routes t routes) (tables_loop ts)"

text \<open>The body of \<^verbatim>\<open>for peer in rib[0].get("peer", [])\<close>.\<close>

definition peer_routes :: "json \<Rightarrow> route list \<Rightarrow> error + route list" where
  "peer_routes peer routes =
     ebind (dict_get peer ''effective-rib-in'' (JDict [])) (\<lambda>rib_in.
     ebind (dict_get rib_in ''tables'' (JList [])) (\<lambda>tables.
     ebind (py_iter tables) (\<lambda>ts. tables_loop ts routes)))"

fun peers_loop :: "json list \<Rightarrow> route list \<Rightarrow> error + route list" where
  "peers_loop [] routes = Inr routes"
| "peers_loop (p # ps) routes = ebind (peer_routes p routes) (peers_loop ps)"

text \<open>
  \<^verbatim>\<open>{tuple(d.items()) for d in routes}\<close>: a tuple is hashable when its items are
  (a list or a dict is not: TypeError), and two tuples are the same element when
  Python's \<^verbatim>\<open>==\<close> holds, for which \<^verbatim>\<open>True == 1\<close> and \<^verbatim>\<open>False == 0\<close>.
\<close>

fun hashable :: "json \<Rightarrow> bool" where
  "hashable (JList xs) = False"
| "hashable (JDict kvs) = False"
| "hashable _ = True"

fun py_key :: "json \<Rightarrow> json" where
  "py_key (JBool b) = JNum (if b then 1 else 0)"
| "py_key v = v"

definition same_tuple :: "route \<Rightarrow> route \<Rightarrow> bool" where
  "same_tuple a b \<longleftrightarrow>
     map fst a = map fst b \<and> map (\<lambda>kv. py_key (snd kv)) a = map (\<lambda>kv. py_key (snd kv)) b"

fun tuple_set :: "route list \<Rightarrow> route list \<Rightarrow> error + route list" where
  "tuple_set [] s = Inr s"
| "tuple_set (d # ds) s =
     (if list_all (\<lambda>kv. hashable (snd kv)) d
      then tuple_set ds (if list_ex (same_tuple d) s then s else s @ [d])
      else Inl TypeError)"

text \<open>
  The body of the \<^verbatim>\<open>try\<close> block: \<open>Inl\<close> is an exception raised inside it.
  \<open>rorder\<close> is the iteration order of the set of tuples.
\<close>

definition extract_try :: "(route list \<Rightarrow> route list) \<Rightarrow> json \<Rightarrow> error + route list" where
  "extract_try rorder bgp_data =
     ebind (dict_get bgp_data ''bgp-rib:rib'' (JList [])) (\<lambda>rib.
     if \<not> truthy rib then Inr []
     else
       ebind (getitem_0 rib) (\<lambda>rib0.
       ebind (dict_get rib0 ''loc-rib'' (JDict [])) (\<lambda>loc_rib.
       ebind (dict_get loc_rib ''tables'' (JList [])) (\<lambda>loc_rib_tables.
       ebind (py_iter loc_rib_tables) (\<lambda>ts.
       ebind (tables_loop ts []) (\<lambda>routes.
       ebind (dict_get rib0 ''peer'' (JList [])) (\<lambda>peers.
       ebind (py_iter peers) (\<lambda>ps.
       ebind (peers_loop ps routes) (\<lambda>routes'.
       ebind (tuple_set routes' []) (\<lambda>unique. Inr (rorder unique)))))))))))"

text \<open>\<^verbatim>\<open>except Exception\<close>: whatever was raised, the result is the empty list.\<close>

definition extract_routes :: "(route list \<Rightarrow> route list) \<Rightarrow> json \<Rightarrow> route list" where
  "extract_routes rorder bgp_data =
     (case extract_try rorder bgp_data of Inr routes \<Rightarrow> routes | Inl e \<Rightarrow> [])"

section \<open>The graph of the builder\<close>

text \<open>
  \<^verbatim>\<open>nx.Graph\<close> as the builder uses it: \<open>g_node\<close> is the dict from a node to
  its \<^verbatim>\<open>label\<close> attribute (\<open>None\<close> when the node has none), \<open>g_adj\<close> the dict
  from a node to the dict of its neighbours with the edge's label. Both dicts keep
  insertion order, and assigning to a key that exists keeps its place
  (\<^const>\<open>AList.update\<close>).
\<close>

record graph =
  g_node :: "(string \<times> string option) list"
  g_adj :: "(string \<times> (string \<times> string) list) list"

definition empty_graph :: graph where
  "empty_graph = \<lparr>g_node = [], g_adj = []\<rparr>"

definition has_node :: "string \<Rightarrow> graph \<Rightarrow> bool" where
  "has_node n G \<longleftrightarrow> n \<in> set (map fst (g_node G))"

text \<open>\<^verbatim>\<open>G.add_node(n, label=l)\<close>: a new node is appended; an old one has its label replaced.\<close>

definition add_node :: "string \<Rightarrow> string \<Rightarrow> graph \<Rightarrow> graph" where
  "add_node n l G =
     (if \<not> has_node n G
      then \<lparr>g_node = g_node G @ [(n, Some l)], g_adj = g_adj G @ [(n, [])]\<rparr>
      else G\<lparr>g_node := AList.update n (Some l) (g_node G)\<rparr>)"

text \<open>What \<^verbatim>\<open>add_edge\<close> does first with each endpoint: a missing one is created, bare.\<close>

definition ensure_node :: "string \<Rightarrow> graph \<Rightarrow> graph" where
  "ensure_node n G =
     (if \<not> has_node n G
      then \<lparr>g_node = g_node G @ [(n, None)], g_adj = g_adj G @ [(n, [])]\<rparr>
      else G)"

text \<open>
  \<^verbatim>\<open>G.add_edge(u, v, label=l)\<close>: the label is stored under \<^verbatim>\<open>adj[u][v]\<close> and
  \<^verbatim>\<open>adj[v][u]\<close>, replacing the label of an edge that was there.
\<close>

definition add_edge :: "string \<Rightarrow> string \<Rightarrow> string \<Rightarrow> graph \<Rightarrow> graph" where
  "add_edge u v l G =
     (let G1 = ensure_node v (ensure_node u G);
          adj1 = AList.map_entry u (AList.update v l) (g_adj G1);
          adj2 = AList.map_entry v (AList.update u l) adj1
      in G1\<lparr>g_adj := adj2\<rparr>)"

section \<open>The topology snapshot\<close>

record node =
  node_id :: string
  node_label :: string

record edge =
  edge_from :: string
  edge_to :: string
  edge_label :: string

record snapshot =
  nodes :: "node list"
  edges :: "edge list"

definition empty_snapshot :: snapshot where
  "empty_snapshot = \<lparr>nodes = [], edges = []\<rparr>"

text \<open>\<^verbatim>\<open>[{"id": n, "label": G.nodes[n].get("label", n)} for n in G.nodes()]\<close>\<close>

definition nodes_view :: "graph \<Rightarrow> node list" where
  "nodes_view G =
     map (\<lambda>(n, a). \<lparr>node_id = n, node_label = (case a of Some l \<Rightarrow> l | None \<Rightarrow> n)\<rparr>) (g_node G)"

text \<open>
  \<^verbatim>\<open>G.edges(data=True)\<close> of an undirected graph: the nodes in order, for each its
  neighbours in order, leaving out the neighbours already visited as nodes, so that
  each edge is reported once, from the endpoint met first.
\<close>

fun edges_from :: "string list \<Rightarrow> (string \<times> (string \<times> string) list) list \<Rightarrow> edge list" where
  "edges_from seen [] = []"
| "edges_from seen ((n, nbrs) # rest) =
     map (\<lambda>(nbr, l). \<lparr>edge_from = n, edge_to = nbr, edge_label = l\<rparr>)
         (filter (\<lambda>(nbr, l). nbr \<notin> set seen) nbrs)
     @ edges_from (n # seen) rest"

definition edges_view :: "graph \<Rightarrow> edge list" where
  "edges_view G = edges_from [] (g_adj G)"


section \<open>Step 3: \<^verbatim>\<open>build_dynamic_topology\<close>\<close>

subsection \<open>Part 1a: the local router\<close>

text \<open>\<^verbatim>\<open>bgp_data["bgp-rib:rib"][0]["peer"][0]["peer-id"]\<close>\<close>

definition peer_id_lookup :: "json \<Rightarrow> error + json" where
  "peer_id_lookup bgp_data =
     ebind (getitem_str bgp_data ''bgp-rib:rib'') (\<lambda>rib.
     ebind (getitem_0 rib) (\<lambda>rib0.
     ebind (getitem_str rib0 ''peer'') (\<lambda>peers.
     ebind (getitem_0 peers) (\<lambda>peer0.
     getitem_str peer0 ''peer-id''))))"

text \<open>The body of the \<^verbatim>\<open>try\<close> block of Part 1a.\<close>

definition local_prefix_try :: "json \<Rightarrow> error + string" where
  "local_prefix_try bgp_data =
     ebind (peer_id_lookup bgp_data) (\<lambda>peer_id_str.
     ebind (json_split peer_id_str ''//'') (\<lambda>parts.
     ebind (py_last parts) (\<lambda>local_ip.
     Inr (local_ip @ ''/32''))))"

text \<open>
  \<^verbatim>\<open>except (KeyError, IndexError)\<close>: these two leave \<^verbatim>\<open>local_ip_prefix\<close> at
  \<^verbatim>\<open>None\<close>; any other exception leaves the function.
\<close>

definition local_ip_prefix :: "json \<Rightarrow> error + string option" where
  "local_ip_prefix bgp_data =
     (case local_prefix_try bgp_data of
        Inr p \<Rightarrow> Inr (Some p)
      | Inl KeyError \<Rightarrow> Inr None
      | Inl IndexError \<Rightarrow> Inr None
      | Inl e \<Rightarrow> Inl e)"

subsection \<open>Part 1b: the node prefixes\<close>

text \<open>\<^verbatim>\<open>r.get('prefix', '')\<close> on a route entry.\<close>

definition route_prefix :: "route \<Rightarrow> json" where
  "route_prefix r = (case map_of r ''prefix'' of None \<Rightarrow> JStr [] | Some v \<Rightarrow> v)"

definition is_node_prefix :: "string \<Rightarrow> bool" where
  "is_node_prefix p \<longleftrightarrow> prefix ''192.168.7.'' p \<and> suffix ''/32'' p"

text \<open>
  The set comprehension over \<^verbatim>\<open>routes\<close>: \<^verbatim>\<open>startswith\<close> on a prefix that is not
  a string is an AttributeError, outside every \<^verbatim>\<open>try\<close>.
\<close>

fun node_prefix_set :: "route list \<Rightarrow> string list \<Rightarrow> error + string list" where
  "node_prefix_set [] s = Inr s"
| "node_prefix_set (r # rs) s =
     (case route_prefix r of
        JStr p \<Rightarrow> node_prefix_set rs (if is_node_prefix p then set_add p s else s)
      | _ \<Rightarrow> Inl AttributeError)"

text \<open>\<^verbatim>\<open>if local_ip_prefix: node_prefixes.add(local_ip_prefix)\<close>\<close>

definition add_local :: "string option \<Rightarrow> string list \<Rightarrow> string list" where
  "add_local local s =
     (case local of None \<Rightarrow> s | Some p \<Rightarrow> if p \<noteq> [] then set_add p s else s)"

subsection \<open>Part 1c: the nodes\<close>

definition node_try :: "string \<Rightarrow> graph \<Rightarrow> error + graph" where
  "node_try pfx G =
     ebind (py_nth (py_split ''/'' pfx) 0) (\<lambda>ip_str.
     ebind (py_last (py_split ''.'' ip_str)) (\<lambda>router_num.
     Inr (add_node (''R'' @ router_num) ip_str G)))"

text \<open>\<^verbatim>\<open>except (ValueError, IndexError): continue\<close>\<close>

definition node_step :: "string \<Rightarrow> graph \<Rightarrow> error + graph" where
  "node_step pfx G =
     (case node_try pfx G of
        Inr G' \<Rightarrow> Inr G'
      | Inl ValueError \<Rightarrow> Inr G
      | Inl IndexError \<Rightarrow> Inr G
      | Inl e \<Rightarrow> Inl e)"

fun node_loop :: "string list \<Rightarrow> graph \<Rightarrow> error + graph" where
  "node_loop [] G = Inr G"
| "node_loop (p # ps) G = ebind (node_step p G) (node_loop ps)"

subsection \<open>Part 2a: the link prefixes\<close>

text \<open>
  \<^verbatim>\<open>find_prefixes_recursively\<close>, with the set it fills passed through: the values
  of a dict and the items of a list are searched in order, a string that starts with
  the pattern is added.
\<close>

fun find_prefixes_recursively :: "json \<Rightarrow> string \<Rightarrow> string list \<Rightarrow> string list"
  and find_in_items :: "json list \<Rightarrow> string \<Rightarrow> string list \<Rightarrow> string list"
  and find_in_values :: "(string \<times> json) list \<Rightarrow> string \<Rightarrow> string list \<Rightarrow> string list"
where
  "find_prefixes_recursively (JDict kvs) pat found = find_in_values kvs pat found"
| "find_prefixes_recursively (JList xs) pat found = find_in_items xs pat found"
| "find_prefixes_recursively (JStr s) pat found = (if prefix pat s then set_add s found else found)"
| "find_prefixes_recursively JNull pat found = found"
| "find_prefixes_recursively (JBool b) pat found = found"
| "find_prefixes_recursively (JNum n) pat found = found"
| "find_in_items [] pat found = found"
| "find_in_items (x # xs) pat found =
     find_in_items xs pat (find_prefixes_recursively x pat found)"
| "find_in_values [] pat found = found"
| "find_in_values (kv # kvs) pat found =
     find_in_values kvs pat (find_prefixes_recursively (snd kv) pat found)"

subsection \<open>Part 2b: the edges\<close>

definition edge_try :: "string \<Rightarrow> graph \<Rightarrow> error + graph" where
  "edge_try link_prefix G =
     ebind (py_nth (py_split ''/'' link_prefix) 0) (\<lambda>network_address.
     ebind (py_nth (py_split ''.'' network_address) 2) (\<lambda>third_octet.
       if length third_octet = 2 then
         (let node1_id = ''R'' @ [third_octet ! 0];
              node2_id = ''R'' @ [third_octet ! 1]
          in if has_node node1_id G \<and> has_node node2_id G
             then Inr (add_edge node1_id node2_id (network_address @ ''/30'') G)
             else Inr G)
       else Inr G))"

definition edge_step :: "string \<Rightarrow> graph \<Rightarrow> error + graph" where
  "edge_step link_prefix G =
     (case edge_try link_prefix G of
        Inr G' \<Rightarrow> Inr G'
      | Inl ValueError \<Rightarrow> Inr G
      | Inl IndexError \<Rightarrow> Inr G
      | Inl e \<Rightarrow> Inl e)"

fun edge_loop :: "string list \<Rightarrow> graph \<Rightarrow> error + graph" where
  "edge_loop [] G = Inr G"
| "edge_loop (p # ps) G = ebind (edge_step p G) (edge_loop ps)"

subsection \<open>The whole builder\<close>

text \<open>The set of node prefixes and the set of link prefixes, before they are iterated.\<close>

definition node_prefixes :: "route list \<Rightarrow> json \<Rightarrow> error + string list" where
  "node_prefixes routes bgp_data =
     ebind (local_ip_prefix bgp_data) (\<lambda>local.
     ebind (node_prefix_set routes []) (\<lambda>s. Inr (add_local local s)))"

definition link_prefixes :: "json \<Rightarrow> string list" where
  "link_prefixes bgp_data = find_prefixes_recursively bgp_data ''10.85.'' []"

definition build_graph :: "(string list \<Rightarrow> string list) \<Rightarrow> route list \<Rightarrow> json \<Rightarrow> error + graph" where
  "build_graph order routes bgp_data =
     ebind (node_prefixes routes bgp_data) (\<lambda>nps.
     ebind (node_loop (order nps) empty_graph) (\<lambda>G.
     edge_loop (order (link_prefixes bgp_data)) G))"

definition build_dynamic_topology ::
  "(string list \<Rightarrow> string list) \<Rightarrow> route list \<Rightarrow> json \<Rightarrow> error + snapshot" where
  "build_dynamic_topology order routes bgp_data =
     ebind (build_graph order routes bgp_data) (\<lambda>G.
     Inr \<lparr>nodes = nodes_view G, edges = edges_view G\<rparr>)"

section \<open>Steps 1, 4 and 5: fetching, the store, the broadcast and the poll loop\<close>

text \<open>
  What the HTTP session did in one call of \<^verbatim>\<open>fetch_bgp_data\<close>: it answered with a
  status and a JSON body, or raised \<^verbatim>\<open>ClientConnectorError\<close>. These are the
  outcomes the function handles; any other exception of the session would leave it.
\<close>

datatype fetch_outcome = Response nat json | ConnectorError

fun fetch_bgp_data :: "fetch_outcome \<Rightarrow> json" where
  "fetch_bgp_data (Response status body) = (if status \<noteq> 200 then JDict [] else body)"
| "fetch_bgp_data ConnectorError = JDict []"

definition fetch_topology ::
  "(string list \<Rightarrow> string list) \<Rightarrow> (route list \<Rightarrow> route list) \<Rightarrow> fetch_outcome \<Rightarrow> error + snapshot" where
  "fetch_topology order rorder outcome =
     (let bgp_data = fetch_bgp_data outcome in
      if \<not> truthy bgp_data then Inr empty_snapshot
      else
        (let routes = extract_routes rorder bgp_data in
         if routes = [] then build_dynamic_topology order [] bgp_data
         else build_dynamic_topology order routes bgp_data))"

text \<open>
  The state of the process: the stored snapshot, the registered subscribers, and
  what has been sent: the messages handed to \<^verbatim>\<open>manager.broadcast\<close> and the
  deliveries that succeeded.
\<close>

record server =
  latest_snapshot :: "snapshot option"
  active :: "nat list"
  broadcasts :: "snapshot list"
  delivered :: "(nat \<times> snapshot) list"

definition disconnect :: "nat \<Rightarrow> server \<Rightarrow> server" where
  "disconnect ws st = st\<lparr>active := removeAll ws (active st)\<rparr>"

text \<open>
  \<^verbatim>\<open>for ws in list(self.active)\<close>: \<open>send_ok ws\<close> tells whether
  \<^verbatim>\<open>ws.send_text\<close> returns; when it raises, the subscriber is dropped. The
  message is the snapshot itself, its serialisation left out.
\<close>

fun broadcast_loop :: "(nat \<Rightarrow> bool) \<Rightarrow> snapshot \<Rightarrow> nat list \<Rightarrow> server \<Rightarrow> server" where
  "broadcast_loop send_ok msg [] st = st"
| "broadcast_loop send_ok msg (ws # rest) st =
     broadcast_loop send_ok msg rest
       (if send_ok ws then st\<lparr>delivered := delivered st @ [(ws, msg)]\<rparr> else disconnect ws st)"

definition broadcast :: "(nat \<Rightarrow> bool) \<Rightarrow> snapshot \<Rightarrow> server \<Rightarrow> server" where
  "broadcast send_ok msg st =
     broadcast_loop send_ok msg (active st) (st\<lparr>broadcasts := broadcasts st @ [msg]\<rparr>)"

text \<open>
  The two lines of \<^verbatim>\<open>poll_loop\<close> that follow \<^verbatim>\<open>fetch_topology\<close>. A snapshot is a
  dict with two keys, so \<^verbatim>\<open>graph\<close> is always true; \<^verbatim>\<open>!=\<close> compares the two
  lists of the snapshots item by item.
\<close>

definition consider_snapshot :: "(nat \<Rightarrow> bool) \<Rightarrow> snapshot \<Rightarrow> server \<Rightarrow> server" where
  "consider_snapshot send_ok graph st =
     (if Some graph \<noteq> latest_snapshot st
      then broadcast send_ok graph (st\<lparr>latest_snapshot := Some graph\<rparr>)
      else st)"

text \<open>One round of the \<^verbatim>\<open>while True\<close> loop, up to the sleep.\<close>

record cycle =
  outcome :: fetch_outcome
  send_ok :: "nat \<Rightarrow> bool"

definition poll_cycle ::
  "(string list \<Rightarrow> string list) \<Rightarrow> (route list \<Rightarrow> route list) \<Rightarrow> cycle \<Rightarrow> server \<Rightarrow> error + server" where
  "poll_cycle order rorder c st =
     ebind (fetch_topology order rorder (outcome c)) (\<lambda>graph.
     Inr (consider_snapshot (send_ok c) graph st))"

text \<open>
  The loop over the rounds that are given: \<open>Inr\<close> when every one of them reached
  its sleep, \<open>Inl\<close> when an exception left the loop and ended the task.
\<close>

fun poll_loop ::
  "(string list \<Rightarrow> string list) \<Rightarrow> (route list \<Rightarrow> route list) \<Rightarrow> cycle list \<Rightarrow> server \<Rightarrow> error + server" where
  "poll_loop order rorder [] st = Inr st"
| "poll_loop order rorder (c # cs) st =
     ebind (poll_cycle order rorder c st) (poll_loop order rorder cs)"

section \<open>Notions used to state the properties\<close>

text \<open>
  What Part 1c makes of a candidate prefix: the text before the first \<^verbatim>\<open>/\<close> is the
  label, and \<^verbatim>\<open>R\<close> followed by the text after its last dot is the node id.
\<close>

definition prefix_ip :: "string \<Rightarrow> string" where
  "prefix_ip p = hd (py_split ''/'' p)"

definition prefix_node_id :: "string \<Rightarrow> string" where
  "prefix_node_id p = ''R'' @ last (py_split ''.'' (prefix_ip p))"

text \<open>
  What Part 2b reads off a link string: the two endpoint ids and the label, when the
  address has a third piece of exactly two characters.
\<close>

definition link_ends :: "string \<Rightarrow> (string \<times> string \<times> string) option" where
  "link_ends lp =
     (let network_address = hd (py_split ''/'' lp);
          parts = py_split ''.'' network_address
      in if 2 < length parts \<and> length (parts ! 2) = 2
         then Some (''R'' @ [parts ! 2 ! 0], ''R'' @ [parts ! 2 ! 1], network_address @ ''/30'')
         else None)"

text \<open>The effect of one round of the edge loop, and the graphs after each loop.\<close>

definition edge_apply :: "string \<Rightarrow> graph \<Rightarrow> graph" where
  "edge_apply lp G =
     (case link_ends lp of
        None \<Rightarrow> G
      | Some (u, v, l) \<Rightarrow> if has_node u G \<and> has_node v G then add_edge u v l G else G)"

definition node_graph :: "string list \<Rightarrow> graph" where
  "node_graph ps = fold (\<lambda>p. add_node (prefix_node_id p) (prefix_ip p)) ps empty_graph"

definition final_graph :: "string list \<Rightarrow> string list \<Rightarrow> graph" where
  "final_graph ps ls = fold edge_apply ls (node_graph ps)"

text \<open>The label stored for the edge between two nodes, if there is one.\<close>

definition adj_label :: "graph \<Rightarrow> string \<Rightarrow> string \<Rightarrow> string option" where
  "adj_label G u v = (case map_of (g_adj G) u of None \<Rightarrow> None | Some nbrs \<Rightarrow> map_of nbrs v)"

text \<open>
  The shape every graph of the builder has: the two dicts have the same keys in the
  same order, no key twice, and the adjacency is symmetric.
\<close>

definition graph_ok :: "graph \<Rightarrow> bool" where
  "graph_ok G \<longleftrightarrow>
     map fst (g_adj G) = map fst (g_node G) \<and>
     distinct (map fst (g_node G)) \<and>
     (\<forall>n nbrs. map_of (g_adj G) n = Some nbrs \<longrightarrow> distinct (map fst nbrs)) \<and>
     (\<forall>u v l. adj_label G u v = Some l \<longrightarrow> adj_label G v u = Some l)"

text \<open>The two endpoints of an edge, as an unordered pair.\<close>

definition edge_ends :: "edge \<Rightarrow> string set" where
  "edge_ends e = {edge_from e, edge_to e}"

text \<open>The prefixes of the routes that follow the node-address convention.\<close>

definition route_candidates :: "route list \<Rightarrow> string set" where
  "route_candidates routes = {p. is_node_prefix p \<and> JStr p \<in> route_prefix ` set routes}"

text \<open>A fetch that gave no document: a connection error or a status other than 200.\<close>

definition fetch_failed :: "fetch_outcome \<Rightarrow> bool" where
  "fetch_failed oc \<longleftrightarrow>
     (case oc of ConnectorError \<Rightarrow> True | Response status body \<Rightarrow> status \<noteq> 200)"

section \<open>Concrete inputs\<close>

definition always_delivers :: "nat \<Rightarrow> bool" where
  "always_delivers ws = True"

definition route_of :: "string \<Rightarrow> route" where
  "route_of p = [(''prefix'', JStr p)]"

definition R1 :: node where
  "R1 = \<lparr>node_id = ''R1'', node_label = ''192.168.7.1''\<rparr>"

definition R2 :: node where
  "R2 = \<lparr>node_id = ''R2'', node_label = ''192.168.7.2''\<rparr>"

definition two_routes :: "route list" where
  "two_routes = [route_of ''192.168.7.1/32'', route_of ''192.168.7.2/32'']"

text \<open>
  A document with the local peer-id \<^verbatim>\<open>bgp://192.168.7.1\<close> and the string
  \<^verbatim>\<open>10.85.12.5/32\<close> nested below it.
\<close>

definition doc_with_link :: json where
  "doc_with_link =
     JDict [(''bgp-rib:rib'', JList [JDict [(''peer'', JList [JDict
       [(''peer-id'', JStr ''bgp://192.168.7.1''),
        (''supported-tables'', JList [JDict [(''next-hop'', JStr ''10.85.12.5/32'')]])]])]])]"

definition snapshot_forward :: snapshot where
  "snapshot_forward = \<lparr>nodes = [R1, R2],
     edges = [\<lparr>edge_from = ''R1'', edge_to = ''R2'', edge_label = ''10.85.12.5/30''\<rparr>]\<rparr>"

definition snapshot_backward :: snapshot where
  "snapshot_backward = \<lparr>nodes = [R2, R1],
     edges = [\<lparr>edge_from = ''R2'', edge_to = ''R1'', edge_label = ''10.85.12.5/30''\<rparr>]\<rparr>"

text \<open>The snapshot the specification's end-to-end example expects.\<close>

definition snapshot_of_spec :: snapshot where
  "snapshot_of_spec = \<lparr>nodes = [R1, R2],
     edges = [\<lparr>edge_from = ''R1'', edge_to = ''R2'', edge_label = ''10.85.12.0/30''\<rparr>]\<rparr>"

text \<open>Servers, rounds and snapshots for the poll loop.\<close>

definition rich_server :: server where
  "rich_server = \<lparr>latest_snapshot = Some snapshot_forward, active = [1, 2], broadcasts = [snapshot_forward],
     delivered = [(1, snapshot_forward), (2, snapshot_forward)]\<rparr>"

definition failed_cycle :: cycle where
  "failed_cycle = \<lparr>outcome = ConnectorError, send_ok = always_delivers\<rparr>"

definition nodes_forward :: snapshot where
  "nodes_forward = \<lparr>nodes = [R1, R2], edges = []\<rparr>"

definition nodes_backward :: snapshot where
  "nodes_backward = \<lparr>nodes = [R2, R1], edges = []\<rparr>"

definition server_holding :: "snapshot \<Rightarrow> server" where
  "server_holding g = \<lparr>latest_snapshot = Some g, active = [1], broadcasts = [g], delivered = [(1, g)]\<rparr>"

definition fresh_server :: server where
  "fresh_server = \<lparr>latest_snapshot = None, active = [1], broadcasts = [], delivered = []\<rparr>"

text \<open>A document whose first peer has the peer-id \<^verbatim>\<open>null\<close>.\<close>

definition doc_null_peer_id :: json where
  "doc_null_peer_id =
     JDict [(''bgp-rib:rib'', JList [JDict [(''peer'', JList [JDict [(''peer-id'', JNull)]])]])]"

definition null_peer_id_cycle :: cycle where
  "null_peer_id_cycle = \<lparr>outcome = Response 200 doc_null_peer_id, send_ok = always_delivers\<rparr>"

text \<open>
  Documents of the shape the extractor walks: one RIB with the tables of its
  \<^verbatim>\<open>loc-rib\<close> and its list of peers.
\<close>

definition rib_doc :: "json list \<Rightarrow> json list \<Rightarrow> json" where
  "rib_doc tables peers =
     JDict [(''bgp-rib:rib'', JList [JDict
       [(''loc-rib'', JDict [(''tables'', JList tables)]), (''peer'', JList peers)]])]"

definition table_of :: "string list \<Rightarrow> json" where
  "table_of ps =
     JDict [(''bgp-inet:ipv4-routes'',
       JDict [(''ipv4-route'', JList (map (\<lambda>p. JDict [(''prefix'', JStr p)]) ps))])]"

definition peer_null_rib_in :: json where
  "peer_null_rib_in = JDict [(''peer-id'', JStr ''bgp://192.168.7.1''), (''effective-rib-in'', JNull)]"

definition peer_no_rib_in :: json where
  "peer_no_rib_in = JDict [(''peer-id'', JStr ''bgp://192.168.7.1'')]"

definition peer_of :: "string list \<Rightarrow> json" where
  "peer_of ps = JDict [(''peer-id'', JStr ''bgp://192.168.7.1''),
     (''effective-rib-in'', JDict [(''tables'', JList [table_of ps])])]"

text \<open>Documents for the builder.\<close>

text \<open>A peer-id that is a string without a scheme.\<close>

definition doc_plain_peer_id :: json where
  "doc_plain_peer_id =
     JDict [(''bgp-rib:rib'', JList [JDict [(''peer'', JList [JDict [(''peer-id'', JStr ''garbage'')]])]])]"

text \<open>A first peer without the key \<^verbatim>\<open>peer-id\<close>.\<close>

definition doc_no_peer_id :: json where
  "doc_no_peer_id =
     JDict [(''bgp-rib:rib'', JList [JDict [(''peer'', JList [JDict [(''peer-role'', JStr ''ebgp'')]])]])]"

text \<open>Two link strings that name the routers 1 and 2, in either order.\<close>

definition doc_two_links :: json where
  "doc_two_links =
     JDict [(''bgp-rib:rib'', JList [JDict [(''peer'', JList [JDict
       [(''peer-id'', JStr ''bgp://192.168.7.1''),
        (''links'', JList [JStr ''10.85.12.0/30'', JStr ''10.85.21.0/30''])]])]])]"

text \<open>A document with one link string and no peer.\<close>

definition doc_link_only :: json where
  "doc_link_only = JDict [(''links'', JList [JStr ''10.85.12.0/30''])]"

definition snapshot_two_links :: snapshot where
  "snapshot_two_links = \<lparr>nodes = [R1, R2],
     edges = [\<lparr>edge_from = ''R1'', edge_to = ''R2'', edge_label = ''10.85.21.0/30''\<rparr>]\<rparr>"

section \<open>Lemmas\<close>

subsection \<open>Exceptions, splitting and sets\<close>

text \<open>
  A split always has a first and a last piece, so the node loop never takes its
  \<^verbatim>\<open>except\<close> branch, and the edge loop takes it only when the address has fewer
  than three pieces; both loops are folds that cannot raise.
\<close>

lemma ebind_Inr [simp]: "ebind (Inr x) f = f x" by (simp add: ebind_def)

lemma ebind_Inl [simp]: "ebind (Inl e) f = Inl e" by (simp add: ebind_def)

lemma split_from_nonempty: "split_from sep cur s \<noteq> []"
  by (induction sep cur s rule: split_from.induct) auto

lemma py_split_nonempty: "py_split sep s \<noteq> []"
  by (simp add: py_split_def split_from_nonempty)

lemma py_nth_0: "xs \<noteq> [] \<Longrightarrow> py_nth xs 0 = Inr (hd xs)"
  by (cases xs) (simp_all add: py_nth_def)

lemma node_try_eq: "node_try p G = Inr (add_node (prefix_node_id p) (prefix_ip p) G)"
  by (simp add: node_try_def py_nth_0 py_split_nonempty py_last_def prefix_node_id_def prefix_ip_def)

lemma node_step_eq: "node_step p G = Inr (add_node (prefix_node_id p) (prefix_ip p) G)"
  by (simp add: node_step_def node_try_eq)

lemma node_loop_eq:
  "node_loop ps G = Inr (fold (\<lambda>p. add_node (prefix_node_id p) (prefix_ip p)) ps G)"
  by (induction ps arbitrary: G) (simp_all add: node_step_eq)

lemma edge_try_eq: "edge_try lp G = Inr (edge_apply lp G) \<or> edge_try lp G = Inl IndexError \<and> edge_apply lp G = G"
proof -
  let ?na = "hd (py_split ''/'' lp)"
  let ?parts = "py_split ''.'' ?na"
  have hd: "py_nth (py_split ''/'' lp) 0 = Inr ?na"
    by (rule py_nth_0) (rule py_split_nonempty)
  show ?thesis
  proof (cases "2 < length ?parts")
    case True
    then have "py_nth ?parts 2 = Inr (?parts ! 2)" by (simp add: py_nth_def)
    with True hd show ?thesis
      by (simp add: edge_try_def edge_apply_def link_ends_def Let_def)
  next
    case False
    then have "py_nth ?parts 2 = Inl IndexError" by (simp add: py_nth_def)
    with False hd show ?thesis
      by (simp add: edge_try_def edge_apply_def link_ends_def Let_def)
  qed
qed

lemma edge_step_eq: "edge_step lp G = Inr (edge_apply lp G)"
  using edge_try_eq [of lp G] by (auto simp: edge_step_def)

lemma edge_loop_eq: "edge_loop ls G = Inr (fold edge_apply ls G)"
  by (induction ls arbitrary: G) (simp_all add: edge_step_eq)

lemma map_fst_map_entry: "map fst (AList.map_entry k f xs) = map fst xs"
  by (induction xs) auto

lemma add_node_keys:
  "map fst (g_node (add_node n l G)) =
     (if has_node n G then map fst (g_node G) else map fst (g_node G) @ [n])"
  by (simp add: add_node_def has_node_def AList.update_keys)

lemma add_node_adj_keys:
  "map fst (g_adj (add_node n l G)) =
     (if has_node n G then map fst (g_adj G) else map fst (g_adj G) @ [n])"
  by (simp add: add_node_def)

lemma ensure_node_has: "has_node n G \<Longrightarrow> ensure_node n G = G"
  by (simp add: ensure_node_def)

lemma add_edge_node: "has_node u G \<Longrightarrow> has_node v G \<Longrightarrow> g_node (add_edge u v l G) = g_node G"
  by (simp add: add_edge_def ensure_node_has Let_def)

lemma edge_apply_node: "g_node (edge_apply lp G) = g_node G"
  by (auto simp: edge_apply_def add_edge_node split: option.splits)

lemma fold_edge_apply_node: "g_node (fold edge_apply ls G) = g_node G"
  by (induction ls arbitrary: G) (simp_all add: edge_apply_node)

lemma has_node_add_node: "has_node m (add_node n l G) \<longleftrightarrow> m = n \<or> has_node m G"
  using add_node_keys [of n l G] by (auto simp: has_node_def)

lemma fold_add_node_has:
  "has_node m (fold (\<lambda>p. add_node (prefix_node_id p) (prefix_ip p)) ps G)
     \<longleftrightarrow> has_node m G \<or> m \<in> prefix_node_id ` set ps"
  by (induction ps arbitrary: G) (auto simp: has_node_add_node)

subsection \<open>The graph keeps its shape\<close>

text \<open>\<^const>\<open>graph_ok\<close> holds of the empty graph and is kept by both loops.\<close>

lemma graph_ok_empty: "graph_ok empty_graph"
  by (simp add: graph_ok_def empty_graph_def adj_label_def)

lemma map_of_snoc_fresh:
  "k \<notin> set (map fst xs) \<Longrightarrow> map_of (xs @ [(k, v)]) a = (if a = k then Some v else map_of xs a)"
  by (induction xs) auto

lemma graph_ok_sym: "graph_ok G \<Longrightarrow> adj_label G u v = Some l \<Longrightarrow> adj_label G v u = Some l"
  unfolding graph_ok_def by blast

lemma graph_ok_keys: "graph_ok G \<Longrightarrow> map fst (g_adj G) = map fst (g_node G)"
  unfolding graph_ok_def by blast

lemma graph_ok_distinct: "graph_ok G \<Longrightarrow> distinct (map fst (g_node G))"
  unfolding graph_ok_def by blast

lemma graph_ok_nbrs: "graph_ok G \<Longrightarrow> map_of (g_adj G) n = Some nbrs \<Longrightarrow> distinct (map fst nbrs)"
  unfolding graph_ok_def by blast

lemma graph_okI:
  "map fst (g_adj G) = map fst (g_node G) \<Longrightarrow> distinct (map fst (g_node G)) \<Longrightarrow>
   (\<And>n nbrs. map_of (g_adj G) n = Some nbrs \<Longrightarrow> distinct (map fst nbrs)) \<Longrightarrow>
   (\<And>u v l. adj_label G u v = Some l \<Longrightarrow> adj_label G v u = Some l) \<Longrightarrow> graph_ok G"
  unfolding graph_ok_def by blast

lemma has_node_adj: "graph_ok G \<Longrightarrow> has_node n G \<longleftrightarrow> map_of (g_adj G) n \<noteq> None"
proof -
  assume ok: "graph_ok G"
  then have "has_node n G \<longleftrightarrow> n \<in> set (map fst (g_adj G))"
    by (simp add: graph_ok_keys has_node_def)
  also have "\<dots> \<longleftrightarrow> map_of (g_adj G) n \<noteq> None"
    by (simp add: map_of_eq_None_iff)
  finally show ?thesis .
qed

lemma adj_label_has_node: "graph_ok G \<Longrightarrow> adj_label G u v = Some l \<Longrightarrow> has_node u G \<and> has_node v G"
proof -
  assume ok: "graph_ok G" and e: "adj_label G u v = Some l"
  from ok e have e': "adj_label G v u = Some l" by (rule graph_ok_sym)
  from e have "map_of (g_adj G) u \<noteq> None" by (auto simp: adj_label_def split: option.splits)
  moreover from e' have "map_of (g_adj G) v \<noteq> None" by (auto simp: adj_label_def split: option.splits)
  ultimately show ?thesis using ok by (simp add: has_node_adj)
qed

lemma adj_label_add_node: "graph_ok G \<Longrightarrow> adj_label (add_node n l G) a b = adj_label G a b"
proof (cases "has_node n G")
  case True
  then show ?thesis by (simp add: add_node_def adj_label_def)
next
  case False
  assume ok: "graph_ok G"
  with False have "n \<notin> set (map fst (g_adj G))" by (simp add: graph_ok_keys has_node_def)
  then have "map_of (g_adj G @ [(n, [])]) a = (if a = n then Some [] else map_of (g_adj G) a)"
    and "map_of (g_adj G) n = None"
    by (rule map_of_snoc_fresh, simp add: map_of_eq_None_iff)
  with False show ?thesis by (simp add: add_node_def adj_label_def del: map_of_append)
qed

lemma map_of_adj_add_node:
  "graph_ok G \<Longrightarrow> map_of (g_adj (add_node n l G)) m = Some nbrs \<Longrightarrow>
     nbrs = [] \<or> map_of (g_adj G) m = Some nbrs"
proof (cases "has_node n G")
  case True
  then show "map_of (g_adj (add_node n l G)) m = Some nbrs \<Longrightarrow> ?thesis"
    by (simp add: add_node_def)
next
  case False
  assume ok: "graph_ok G" and m: "map_of (g_adj (add_node n l G)) m = Some nbrs"
  from ok False have "n \<notin> set (map fst (g_adj G))" by (simp add: graph_ok_keys has_node_def)
  then have "map_of (g_adj G @ [(n, [])]) m = (if m = n then Some [] else map_of (g_adj G) m)"
    by (rule map_of_snoc_fresh)
  with False m show ?thesis by (auto simp: add_node_def simp del: map_of_append split: if_splits)
qed

lemma graph_ok_add_node: "graph_ok G \<Longrightarrow> graph_ok (add_node n l G)"
proof (rule graph_okI)
  assume ok: "graph_ok G"
  show "map fst (g_adj (add_node n l G)) = map fst (g_node (add_node n l G))"
    using ok by (simp add: add_node_keys add_node_adj_keys graph_ok_keys)
  show "distinct (map fst (g_node (add_node n l G)))"
    using graph_ok_distinct [OF ok] by (simp add: add_node_keys has_node_def)
  show "distinct (map fst nbrs)" if "map_of (g_adj (add_node n l G)) m = Some nbrs" for m nbrs
    using map_of_adj_add_node [OF ok that] graph_ok_nbrs [OF ok] by auto
  show "adj_label (add_node n l G) v u = Some x" if "adj_label (add_node n l G) u v = Some x" for u v x
  proof -
    from that have "adj_label G u v = Some x" by (simp add: adj_label_add_node [OF ok])
    with ok have "adj_label G v u = Some x" by (rule graph_ok_sym)
    then show ?thesis by (simp add: adj_label_add_node [OF ok])
  qed
qed

lemma graph_ok_fold_add_node:
  "graph_ok G \<Longrightarrow> graph_ok (fold (\<lambda>p. add_node (prefix_node_id p) (prefix_ip p)) ps G)"
  by (induction ps arbitrary: G) (simp_all add: graph_ok_add_node)

lemma adj_label_fold_add_node:
  "graph_ok G \<Longrightarrow>
   adj_label (fold (\<lambda>p. add_node (prefix_node_id p) (prefix_ip p)) ps G) a b = adj_label G a b"
  by (induction ps arbitrary: G) (simp_all add: graph_ok_add_node adj_label_add_node)

lemma g_adj_add_edge:
  "has_node u G \<Longrightarrow> has_node v G \<Longrightarrow>
   g_adj (add_edge u v l G) =
     AList.map_entry v (AList.update u l) (AList.map_entry u (AList.update v l) (g_adj G))"
  by (simp add: add_edge_def ensure_node_has Let_def)

lemma map_of_map_entry_at:
  "map_of (AList.map_entry k f xs) a = (if a = k then map_option f (map_of xs k) else map_of xs a)"
  by (induction xs) auto

lemma map_of_adj_add_edge:
  assumes "has_node u G" "has_node v G"
  shows "map_of (g_adj (add_edge u v l G)) a =
     map_option (\<lambda>nbrs. (if a = v then AList.update u l else id) ((if a = u then AList.update v l else id) nbrs))
       (map_of (g_adj G) a)"
  using assms by (cases "map_of (g_adj G) a") (auto simp: g_adj_add_edge map_of_map_entry_at)

lemma adj_label_add_edge:
  assumes ok: "graph_ok G" and u: "has_node u G" and v: "has_node v G"
  shows "adj_label (add_edge u v l G) a b =
           (if (a = u \<and> b = v) \<or> (a = v \<and> b = u) then Some l else adj_label G a b)"
proof (cases "map_of (g_adj G) a")
  case None
  with ok u v have "a \<noteq> u" "a \<noteq> v" by (auto simp: has_node_adj)
  with None u v show ?thesis by (simp add: adj_label_def map_of_adj_add_edge)
next
  case (Some nbrs)
  with u v show ?thesis
    by (simp add: adj_label_def map_of_adj_add_edge AList.update_conv')
qed

lemma graph_ok_add_edge:
  assumes ok: "graph_ok G" and u: "has_node u G" and v: "has_node v G"
  shows "graph_ok (add_edge u v l G)"
proof (rule graph_okI)
  show "map fst (g_adj (add_edge u v l G)) = map fst (g_node (add_edge u v l G))"
    using ok u v by (simp add: g_adj_add_edge add_edge_node map_fst_map_entry graph_ok_keys)
  show "distinct (map fst (g_node (add_edge u v l G)))"
    using graph_ok_distinct [OF ok] u v by (simp add: add_edge_node)
  show "distinct (map fst nbrs)" if "map_of (g_adj (add_edge u v l G)) m = Some nbrs" for m nbrs
  proof -
    from that obtain old where old: "map_of (g_adj G) m = Some old"
      and nbrs: "nbrs = (if m = v then AList.update u l else id) ((if m = u then AList.update v l else id) old)"
      using u v by (auto simp: map_of_adj_add_edge)
    from ok old have "distinct (map fst old)" by (rule graph_ok_nbrs)
    with nbrs show "distinct (map fst nbrs)" by (simp add: AList.distinct_update)
  qed
  show "adj_label (add_edge u v l G) b a = Some x" if "adj_label (add_edge u v l G) a b = Some x" for a b x
    using that graph_ok_sym [OF ok, of a b x]
    by (auto simp: adj_label_add_edge [OF ok u v] split: if_splits)
qed

lemma graph_ok_edge_apply: "graph_ok G \<Longrightarrow> graph_ok (edge_apply lp G)"
  by (auto simp: edge_apply_def graph_ok_add_edge split: option.splits)

lemma graph_ok_fold_edge_apply: "graph_ok G \<Longrightarrow> graph_ok (fold edge_apply ls G)"
  by (induction ls arbitrary: G) (simp_all add: graph_ok_edge_apply)

lemma has_node_edge_apply: "has_node n (edge_apply lp G) \<longleftrightarrow> has_node n G"
  by (simp add: has_node_def edge_apply_node)

lemma has_node_fold_edge_apply: "has_node n (fold edge_apply ls G) \<longleftrightarrow> has_node n G"
  by (simp add: has_node_def fold_edge_apply_node)

subsection \<open>The edge view\<close>

text \<open>
  The list of edges holds only stored edges, holds every stored edge in one of its two
  directions, and holds no pair of endpoints twice.
\<close>

lemma edges_from_sound:
  "e \<in> set (edges_from seen al) \<Longrightarrow>
     \<exists>nbrs. (edge_from e, nbrs) \<in> set al \<and> (edge_to e, edge_label e) \<in> set nbrs \<and> edge_to e \<notin> set seen"
proof (induction al arbitrary: seen)
  case Nil
  then show ?case by simp
next
  case (Cons a al)
  obtain n nbrs where a: "a = (n, nbrs)" by (cases a)
  from Cons.prems a
  consider (here) "e \<in> (\<lambda>(nbr, l). \<lparr>edge_from = n, edge_to = nbr, edge_label = l\<rparr>) ` {x \<in> set nbrs. fst x \<notin> set seen}"
    | (later) "e \<in> set (edges_from (n # seen) al)"
    by (auto simp: case_prod_beta)
  then show ?case
  proof cases
    case here
    with a show ?thesis by auto
  next
    case later
    from Cons.IH [OF later] a show ?thesis by auto
  qed
qed

lemma edges_view_sound:
  assumes ok: "graph_ok G" and e: "e \<in> set (edges_view G)"
  shows "adj_label G (edge_from e) (edge_to e) = Some (edge_label e)"
proof -
  from e obtain nbrs where in_adj: "(edge_from e, nbrs) \<in> set (g_adj G)"
    and in_nbrs: "(edge_to e, edge_label e) \<in> set nbrs"
    using edges_from_sound [of e "[]" "g_adj G"] by (auto simp: edges_view_def)
  have "distinct (map fst (g_adj G))"
    using graph_ok_distinct [OF ok] graph_ok_keys [OF ok] by simp
  with in_adj have m: "map_of (g_adj G) (edge_from e) = Some nbrs" by simp
  with ok have "distinct (map fst nbrs)" by (rule graph_ok_nbrs)
  with in_nbrs have "map_of nbrs (edge_to e) = Some (edge_label e)" by simp
  with m show ?thesis by (simp add: adj_label_def)
qed

lemma edges_from_complete:
  assumes "distinct (map fst al)"
    and "(u, nu) \<in> set al" "(v, l) \<in> set nu"
    and "(v, nv) \<in> set al" "(u, l) \<in> set nv"
    and "u \<notin> set seen" "v \<notin> set seen"
  shows "\<lparr>edge_from = u, edge_to = v, edge_label = l\<rparr> \<in> set (edges_from seen al)
       \<or> \<lparr>edge_from = v, edge_to = u, edge_label = l\<rparr> \<in> set (edges_from seen al)"
  using assms
proof (induction al arbitrary: seen)
  case Nil
  then show ?case by simp
next
  case (Cons a al)
  obtain n nbrs where a: "a = (n, nbrs)" by (cases a)
  from Cons.prems(1) a have fresh: "n \<notin> fst ` set al" and dist: "distinct (map fst al)" by auto
  show ?case
  proof (cases "n = u")
    case True
    with Cons.prems(2) fresh a have "nu = nbrs" by (auto simp: image_iff)
    with True Cons.prems(3,7) a show ?thesis by (auto simp: image_iff)
  next
    case nu: False
    show ?thesis
    proof (cases "n = v")
      case True
      with Cons.prems(4) fresh a have "nv = nbrs" by (auto simp: image_iff)
      with True Cons.prems(5,6) a show ?thesis by (auto simp: image_iff)
    next
      case False
      with nu Cons.prems a have "(u, nu) \<in> set al" "(v, nv) \<in> set al"
        "u \<notin> set (n # seen)" "v \<notin> set (n # seen)" by auto
      from Cons.IH [OF dist this(1) Cons.prems(3) this(2) Cons.prems(5) this(3,4)] a
      show ?thesis by auto
    qed
  qed
qed

lemma edges_view_complete:
  assumes ok: "graph_ok G" and e: "adj_label G u v = Some l"
  shows "\<lparr>edge_from = u, edge_to = v, edge_label = l\<rparr> \<in> set (edges_view G)
       \<or> \<lparr>edge_from = v, edge_to = u, edge_label = l\<rparr> \<in> set (edges_view G)"
proof -
  from ok e have e': "adj_label G v u = Some l" by (rule graph_ok_sym)
  from e obtain nu where nu: "map_of (g_adj G) u = Some nu" "map_of nu v = Some l"
    by (auto simp: adj_label_def split: option.splits)
  from e' obtain nv where nv: "map_of (g_adj G) v = Some nv" "map_of nv u = Some l"
    by (auto simp: adj_label_def split: option.splits)
  have dist: "distinct (map fst (g_adj G))"
    using graph_ok_distinct [OF ok] graph_ok_keys [OF ok] by simp
  from nu nv have "(u, nu) \<in> set (g_adj G)" "(v, l) \<in> set nu" "(v, nv) \<in> set (g_adj G)" "(u, l) \<in> set nv"
    by (auto dest: map_of_SomeD)
  from edges_from_complete [OF dist this, of "[]"] show ?thesis by (simp add: edges_view_def)
qed

lemma edges_from_distinct_ends:
  assumes "distinct (map fst al)" and "\<forall>(n, nbrs) \<in> set al. distinct (map fst nbrs)"
  shows "distinct (map edge_ends (edges_from seen al))"
  using assms
proof (induction al arbitrary: seen)
  case Nil
  then show ?case by simp
next
  case (Cons a al)
  obtain n nbrs where a: "a = (n, nbrs)" by (cases a)
  from Cons.prems a have fresh: "n \<notin> fst ` set al" and dist: "distinct (map fst al)"
    and nb: "distinct (map fst nbrs)" and rest: "\<forall>(n, nbrs) \<in> set al. distinct (map fst nbrs)"
    by auto
  let ?here = "map (\<lambda>(nbr, l). \<lparr>edge_from = n, edge_to = nbr, edge_label = l\<rparr>)
                 (filter (\<lambda>(nbr, l). nbr \<notin> set seen) nbrs)"
  have "edge_ends \<circ> (\<lambda>(nbr, l). \<lparr>edge_from = n, edge_to = nbr, edge_label = l\<rparr>) = (\<lambda>x. {n, fst x})"
    by (auto simp: fun_eq_iff edge_ends_def)
  then have ends_here: "map edge_ends ?here = map (\<lambda>x. {n, fst x}) (filter (\<lambda>(nbr, l). nbr \<notin> set seen) nbrs)"
    by (simp only: map_map)
  have "distinct (map fst (filter (\<lambda>(nbr, l). nbr \<notin> set seen) nbrs))"
    using nb by (simp add: distinct_map_filter)
  then have "distinct (map (\<lambda>x. {n, fst x}) (filter (\<lambda>(nbr, l). nbr \<notin> set seen) nbrs))"
    by (simp add: distinct_map inj_on_def doubleton_eq_iff)
  then have d1: "distinct (map edge_ends ?here)" by (simp only: ends_here)
  have d2: "distinct (map edge_ends (edges_from (n # seen) al))"
    using Cons.IH [OF dist rest] .
  have disj: "set (map edge_ends ?here) \<inter> set (map edge_ends (edges_from (n # seen) al)) = {}"
  proof -
    have "n \<in> s" if "s \<in> set (map edge_ends ?here)" for s
      using that by (auto simp: edge_ends_def)
    moreover have "n \<notin> s" if "s \<in> set (map edge_ends (edges_from (n # seen) al))" for s
    proof -
      from that obtain e where e: "e \<in> set (edges_from (n # seen) al)" and s: "s = edge_ends e"
        by auto
      from edges_from_sound [OF e] fresh have "edge_from e \<noteq> n" "edge_to e \<noteq> n"
        by (auto simp: image_iff)
      with s show ?thesis by (simp add: edge_ends_def)
    qed
    ultimately show ?thesis by blast
  qed
  from d1 d2 disj a show ?case by simp
qed

lemma edges_view_distinct_ends:
  assumes ok: "graph_ok G"
  shows "distinct (map edge_ends (edges_view G))"
proof -
  have dist: "distinct (map fst (g_adj G))"
    using graph_ok_distinct [OF ok] graph_ok_keys [OF ok] by simp
  moreover have "\<forall>(n, nbrs) \<in> set (g_adj G). distinct (map fst nbrs)"
    using dist graph_ok_nbrs [OF ok] by auto
  ultimately show ?thesis unfolding edges_view_def by (rule edges_from_distinct_ends)
qed

subsection \<open>The builder as a whole\<close>

text \<open>
  The two sets have no element twice, the build raises only while the node prefixes
  are collected, and the label of an edge is the one of the last link string that
  names its endpoints.
\<close>

lemma iteration_order_set: "iteration_order order \<Longrightarrow> distinct xs \<Longrightarrow> set (order xs) = set xs"
  by (simp add: iteration_order_def)

lemma iteration_order_distinct: "iteration_order order \<Longrightarrow> distinct xs \<Longrightarrow> distinct (order xs)"
  by (simp add: iteration_order_def)

lemma iteration_order_Nil: "iteration_order order \<Longrightarrow> order [] = []"
  using iteration_order_set [of order "[]"] by simp

lemma distinct_set_add: "distinct s \<Longrightarrow> distinct (set_add x s)"
  by (simp add: set_add_def)

lemma set_set_add: "set (set_add x s) = insert x (set s)"
  by (auto simp: set_add_def)

lemma node_prefix_set_result:
  "node_prefix_set routes s = Inr s' \<Longrightarrow> distinct s \<Longrightarrow>
     distinct s' \<and> set s' = set s \<union> route_candidates routes"
proof (induction routes arbitrary: s)
  case Nil
  then show ?case by (simp add: route_candidates_def)
next
  case (Cons r routes)
  from Cons.prems(1) obtain p where p: "route_prefix r = JStr p"
    by (cases "route_prefix r") simp_all
  let ?s = "if is_node_prefix p then set_add p s else s"
  from Cons.prems(1) p have run: "node_prefix_set routes ?s = Inr s'" by simp
  have "distinct ?s" using Cons.prems(2) by (simp add: distinct_set_add)
  from Cons.IH [OF run this] have d: "distinct s'" and s': "set s' = set ?s \<union> route_candidates routes"
    by simp_all
  have "route_candidates (r # routes) = (if is_node_prefix p then {p} else {}) \<union> route_candidates routes"
    using p by (auto simp: route_candidates_def)
  with s' d show ?case by (auto simp: set_set_add)
qed

lemma node_prefix_set_total:
  "\<forall>r\<in>set routes. \<exists>p. route_prefix r = JStr p \<Longrightarrow> \<exists>s'. node_prefix_set routes s = Inr s'"
proof (induction routes arbitrary: s)
  case Nil
  then show ?case by simp
next
  case (Cons r routes)
  then obtain p where p: "route_prefix r = JStr p" by auto
  from Cons.IH [of "if is_node_prefix p then set_add p s else s"] Cons.prems p
  show ?case by simp
qed

lemma distinct_add_local: "distinct s \<Longrightarrow> distinct (add_local local s)"
  by (simp add: add_local_def distinct_set_add split: option.splits)

lemma node_prefixes_result:
  assumes "node_prefixes routes doc = Inr nps"
  shows "\<exists>local. local_ip_prefix doc = Inr local \<and> distinct nps \<and>
           set nps = route_candidates routes \<union> set (add_local local [])"
proof -
  from assms obtain local s where l: "local_ip_prefix doc = Inr local"
    and s: "node_prefix_set routes [] = Inr s" and nps: "nps = add_local local s"
    by (auto simp: node_prefixes_def ebind_def split: sum.splits)
  from node_prefix_set_result [OF s] have "distinct s" "set s = route_candidates routes" by simp_all
  with l nps show ?thesis
    by (auto simp: add_local_def set_set_add distinct_set_add split: option.splits)
qed

lemma find_prefixes_distinct:
  "distinct found \<Longrightarrow> distinct (find_prefixes_recursively d pat found)"
  "distinct found \<Longrightarrow> distinct (find_in_items xs pat found)"
  "distinct found \<Longrightarrow> distinct (find_in_values kvs pat found)"
  by (induction d pat found and xs pat found and kvs pat found
      rule: find_prefixes_recursively_find_in_items_find_in_values.induct)
     (simp_all add: distinct_set_add)

lemma distinct_link_prefixes: "distinct (link_prefixes doc)"
  by (simp add: link_prefixes_def find_prefixes_distinct)

lemma build_graph_eq:
  "node_prefixes routes doc = Inr nps \<Longrightarrow>
   build_graph order routes doc = Inr (final_graph (order nps) (order (link_prefixes doc)))"
  by (simp add: build_graph_def node_loop_eq edge_loop_eq final_graph_def node_graph_def)

lemma build_eq:
  "node_prefixes routes doc = Inr nps \<Longrightarrow>
   build_dynamic_topology order routes doc =
     Inr \<lparr>nodes = nodes_view (final_graph (order nps) (order (link_prefixes doc))),
          edges = edges_view (final_graph (order nps) (order (link_prefixes doc)))\<rparr>"
  by (simp add: build_dynamic_topology_def build_graph_eq)

lemma build_fails: "node_prefixes routes doc = Inl e \<Longrightarrow> build_dynamic_topology order routes doc = Inl e"
  by (simp add: build_dynamic_topology_def build_graph_def)

lemma build_result:
  assumes "build_dynamic_topology order routes doc = Inr snap"
  obtains nps where "node_prefixes routes doc = Inr nps"
    and "nodes snap = nodes_view (final_graph (order nps) (order (link_prefixes doc)))"
    and "edges snap = edges_view (final_graph (order nps) (order (link_prefixes doc)))"
proof (cases "node_prefixes routes doc")
  case (Inl e)
  with assms show ?thesis by (simp add: build_fails)
next
  case (Inr nps)
  with assms build_eq [OF Inr, of order] that [OF Inr] show ?thesis by auto
qed

lemma graph_ok_node_graph: "graph_ok (node_graph ps)"
  by (simp add: node_graph_def graph_ok_fold_add_node graph_ok_empty)

lemma graph_ok_final_graph: "graph_ok (final_graph ps ls)"
  by (simp add: final_graph_def graph_ok_fold_edge_apply graph_ok_node_graph)

lemma has_node_node_graph: "has_node n (node_graph ps) \<longleftrightarrow> n \<in> prefix_node_id ` set ps"
proof -
  have "\<not> has_node n empty_graph" by (simp add: has_node_def empty_graph_def)
  then show ?thesis by (simp add: node_graph_def fold_add_node_has)
qed

lemma has_node_final_graph: "has_node n (final_graph ps ls) \<longleftrightarrow> n \<in> prefix_node_id ` set ps"
  by (simp add: final_graph_def has_node_fold_edge_apply has_node_node_graph)

lemma node_ids_view: "map node_id (nodes_view G) = map fst (g_node G)"
  by (simp add: nodes_view_def case_prod_beta comp_def)

lemma node_id_set_view: "n \<in> node_id ` set (nodes_view G) \<longleftrightarrow> has_node n G"
  using node_ids_view [of G] by (metis has_node_def set_map)

lemma adj_label_node_graph: "adj_label (node_graph ps) a b = None"
  by (simp add: node_graph_def adj_label_fold_add_node graph_ok_empty)
     (simp add: adj_label_def empty_graph_def)

lemma adj_label_edge_apply:
  assumes ok: "graph_ok G"
  shows "adj_label (edge_apply lp G) a b =
     (case link_ends lp of
        None \<Rightarrow> adj_label G a b
      | Some (u, v, l) \<Rightarrow>
          if has_node u G \<and> has_node v G \<and> ((a = u \<and> b = v) \<or> (a = v \<and> b = u))
          then Some l else adj_label G a b)"
  by (auto simp: edge_apply_def adj_label_add_edge [OF ok] split: option.splits)

lemma adj_label_origin:
  assumes "graph_ok G" and "adj_label (fold edge_apply ls G) a b = Some l"
  shows "adj_label G a b = Some l
       \<or> (\<exists>lp\<in>set ls. link_ends lp = Some (a, b, l) \<or> link_ends lp = Some (b, a, l))"
  using assms
proof (induction ls arbitrary: G)
  case Nil
  then show ?case by simp
next
  case (Cons q ls)
  have ok': "graph_ok (edge_apply q G)" using Cons.prems(1) by (rule graph_ok_edge_apply)
  from Cons.prems(2) have "adj_label (fold edge_apply ls (edge_apply q G)) a b = Some l" by simp
  from Cons.IH [OF ok' this]
  consider (old) "adj_label (edge_apply q G) a b = Some l"
    | (later) "\<exists>lp\<in>set ls. link_ends lp = Some (a, b, l) \<or> link_ends lp = Some (b, a, l)"
    by blast
  then show ?case
  proof cases
    case old
    then show ?thesis
      by (auto simp: adj_label_edge_apply [OF Cons.prems(1)] split: option.splits if_splits)
  next
    case later
    then show ?thesis by auto
  qed
qed

lemma adj_label_kept:
  assumes "graph_ok G" and "adj_label G a b = Some l"
    and "\<forall>q\<in>set ls. \<forall>l'. link_ends q \<noteq> Some (a, b, l') \<and> link_ends q \<noteq> Some (b, a, l')"
  shows "adj_label (fold edge_apply ls G) a b = Some l"
  using assms
proof (induction ls arbitrary: G)
  case Nil
  then show ?case by simp
next
  case (Cons q ls)
  have ok': "graph_ok (edge_apply q G)" using Cons.prems(1) by (rule graph_ok_edge_apply)
  from Cons.prems(2,3) have "adj_label (edge_apply q G) a b = Some l"
    by (auto simp: adj_label_edge_apply [OF Cons.prems(1)] split: option.splits)
  from Cons.IH [OF ok' this] Cons.prems(3) show ?case by simp
qed

lemma adj_label_stays:
  assumes "graph_ok G" and "adj_label G a b \<noteq> None"
  shows "adj_label (fold edge_apply ls G) a b \<noteq> None"
  using assms
proof (induction ls arbitrary: G)
  case Nil
  then show ?case by simp
next
  case (Cons q ls)
  have ok': "graph_ok (edge_apply q G)" using Cons.prems(1) by (rule graph_ok_edge_apply)
  from Cons.prems(2) have "adj_label (edge_apply q G) a b \<noteq> None"
    by (auto simp: adj_label_edge_apply [OF Cons.prems(1)] split: option.splits)
  from Cons.IH [OF ok' this] show ?case by simp
qed

lemma adj_label_last:
  assumes ok: "graph_ok G" and ends: "link_ends lp = Some (u, v, l)"
    and u: "has_node u G" and v: "has_node v G"
    and post: "\<forall>q\<in>set post. \<forall>l'. link_ends q \<noteq> Some (u, v, l') \<and> link_ends q \<noteq> Some (v, u, l')"
  shows "adj_label (fold edge_apply (pre @ lp # post) G) u v = Some l"
proof -
  let ?G1 = "fold edge_apply pre G"
  have ok1: "graph_ok ?G1" using ok by (rule graph_ok_fold_edge_apply)
  have "has_node u ?G1" "has_node v ?G1" using u v by (simp_all add: has_node_fold_edge_apply)
  then have "adj_label (edge_apply lp ?G1) u v = Some l"
    using ends by (simp add: adj_label_edge_apply [OF ok1])
  from adj_label_kept [OF graph_ok_edge_apply [OF ok1] this post] show ?thesis by simp
qed

lemma adj_label_made:
  assumes ok: "graph_ok G" and lp: "lp \<in> set ls" and ends: "link_ends lp = Some (u, v, l)"
    and u: "has_node u G" and v: "has_node v G"
  shows "adj_label (fold edge_apply ls G) u v \<noteq> None"
proof -
  from lp obtain pre post where ls: "ls = pre @ lp # post" by (auto simp: in_set_conv_decomp)
  let ?G1 = "fold edge_apply pre G"
  have ok1: "graph_ok ?G1" using ok by (rule graph_ok_fold_edge_apply)
  have "has_node u ?G1" "has_node v ?G1" using u v by (simp_all add: has_node_fold_edge_apply)
  then have "adj_label (edge_apply lp ?G1) u v \<noteq> None"
    using ends by (simp add: adj_label_edge_apply [OF ok1])
  from adj_label_stays [OF graph_ok_edge_apply [OF ok1] this, of post] ls show ?thesis by simp
qed

lemma set_update_subset: "x \<in> set (AList.update k v al) \<Longrightarrow> x = (k, v) \<or> x \<in> set al"
  by (induction al) (auto split: if_splits)

lemma g_node_add_node: "x \<in> set (g_node (add_node n l G)) \<Longrightarrow> x = (n, Some l) \<or> x \<in> set (g_node G)"
  by (auto simp: add_node_def dest: set_update_subset split: if_splits)

lemma g_node_fold_add_node:
  "x \<in> set (g_node (fold (\<lambda>p. add_node (prefix_node_id p) (prefix_ip p)) ps G)) \<Longrightarrow>
     x \<in> set (g_node G) \<or> (\<exists>p\<in>set ps. x = (prefix_node_id p, Some (prefix_ip p)))"
proof (induction ps arbitrary: G)
  case Nil
  then show ?case by simp
next
  case (Cons p ps)
  from Cons.IH [of "add_node (prefix_node_id p) (prefix_ip p) G"] Cons.prems
  show ?case by (auto dest: g_node_add_node)
qed

lemma g_node_final_graph:
  "x \<in> set (g_node (final_graph ps ls)) \<Longrightarrow> \<exists>p\<in>set ps. x = (prefix_node_id p, Some (prefix_ip p))"
  using g_node_fold_add_node [of x ps empty_graph]
  by (simp add: final_graph_def fold_edge_apply_node node_graph_def) (simp add: empty_graph_def)

subsection \<open>Iteration orders\<close>

text \<open>An iteration order keeps the length; of two elements it has two orders to choose from.\<close>

lemma iteration_order_insertion: "iteration_order insertion_order"
  by (simp add: iteration_order_def insertion_order_def)

lemma iteration_order_reverse: "iteration_order reverse_order"
  by (simp add: iteration_order_def reverse_order_def)

lemma iteration_order_length:
  assumes "iteration_order order" and "distinct xs"
  shows "length (order xs) = length xs"
proof -
  from assms have d: "distinct (order xs)" and s: "set (order xs) = set xs"
    by (simp_all add: iteration_order_def)
  from d have "length (order xs) = card (set (order xs))" by (simp add: distinct_card)
  also have "\<dots> = card (set xs)" by (simp only: s)
  also from assms(2) have "\<dots> = length xs" by (simp add: distinct_card)
  finally show ?thesis .
qed

lemma iteration_order_single:
  assumes "iteration_order order"
  shows "order [x] = [x]"
proof -
  from iteration_order_length [OF assms, of "[x]"] obtain a where a: "order [x] = [a]"
    by (auto simp: length_Suc_conv)
  from assms have "set (order [x]) = {x}" by (simp add: iteration_order_def)
  with a show ?thesis by simp
qed

lemma iteration_order_pair:
  assumes "iteration_order order" and "x \<noteq> y"
  shows "order [x, y] = [x, y] \<or> order [x, y] = [y, x]"
proof -
  from iteration_order_length [OF assms(1), of "[x, y]"] assms(2)
  obtain a b where ab: "order [x, y] = [a, b]"
    by (auto simp: length_Suc_conv numeral_2_eq_2)
  from assms have "set (order [x, y]) = {x, y}" by (simp add: iteration_order_def)
  with ab show ?thesis by (auto simp: doubleton_eq_iff)
qed

subsection \<open>The store and the broadcast\<close>

lemma broadcast_loop_fields:
  "broadcasts (broadcast_loop ok msg wss st) = broadcasts st \<and>
   latest_snapshot (broadcast_loop ok msg wss st) = latest_snapshot st"
  by (induction wss arbitrary: st) (simp_all add: disconnect_def)

lemma broadcast_fields:
  "broadcasts (broadcast ok msg st) = broadcasts st @ [msg] \<and>
   latest_snapshot (broadcast ok msg st) = latest_snapshot st"
  by (simp add: broadcast_def broadcast_loop_fields)

lemma extract_routes_empty_doc: "extract_routes rorder (JDict []) = []"
  by (simp add: extract_routes_def extract_try_def)

lemma build_empty_doc:
  "iteration_order order \<Longrightarrow> build_dynamic_topology order [] (JDict []) = Inr empty_snapshot"
  by (simp add: build_dynamic_topology_def build_graph_def node_prefixes_def local_ip_prefix_def
      local_prefix_try_def peer_id_lookup_def add_local_def link_prefixes_def iteration_order_Nil
      empty_graph_def nodes_view_def edges_view_def empty_snapshot_def)

lemma fetch_failed_doc: "fetch_failed oc \<Longrightarrow> fetch_bgp_data oc = JDict []"
  by (cases oc) (simp_all add: fetch_failed_def)

subsection \<open>The snapshot of a build\<close>

lemma snapshot_node_ids:
  assumes ord: "iteration_order order" and nps: "node_prefixes routes doc = Inr nps"
  shows "node_id ` set (nodes_view (final_graph (order nps) ls)) = prefix_node_id ` set nps"
proof -
  from node_prefixes_result [OF nps] have "distinct nps" by blast
  with ord have s: "set (order nps) = set nps" by (rule iteration_order_set)
  have "n \<in> node_id ` set (nodes_view (final_graph (order nps) ls)) \<longleftrightarrow> n \<in> prefix_node_id ` set nps" for n
    by (simp only: node_id_set_view has_node_final_graph s)
  then show ?thesis by blast
qed

lemma snapshot_node_entries:
  assumes ord: "iteration_order order" and nps: "node_prefixes routes doc = Inr nps"
    and n: "n \<in> set (nodes_view (final_graph (order nps) ls))"
  shows "\<exists>p\<in>set nps. node_id n = prefix_node_id p \<and> node_label n = prefix_ip p"
proof -
  from node_prefixes_result [OF nps] have "distinct nps" by blast
  with ord have s: "set (order nps) = set nps" by (rule iteration_order_set)
  from n obtain i a where x: "(i, a) \<in> set (g_node (final_graph (order nps) ls))"
    and nx: "n = \<lparr>node_id = i, node_label = (case a of Some l \<Rightarrow> l | None \<Rightarrow> i)\<rparr>"
    by (auto simp: nodes_view_def)
  from g_node_final_graph [OF x] obtain p where "p \<in> set (order nps)"
    and "(i, a) = (prefix_node_id p, Some (prefix_ip p))" by blast
  with nx s show ?thesis by auto
qed

lemma local_absent:
  "peer_id_lookup doc = Inl KeyError \<or> peer_id_lookup doc = Inl IndexError \<Longrightarrow>
   local_ip_prefix doc = Inr None"
  by (auto simp: local_ip_prefix_def local_prefix_try_def)

lemma node_prefixes_of_local:
  assumes routes: "\<forall>r\<in>set routes. \<exists>p. route_prefix r = JStr p"
    and local: "local_ip_prefix doc = Inr local"
  shows "\<exists>nps. node_prefixes routes doc = Inr nps
           \<and> set nps = route_candidates routes \<union> set (add_local local [])"
proof -
  from node_prefix_set_total [OF routes, of "[]"] obtain s where "node_prefix_set routes [] = Inr s"
    by blast
  with local have nps: "node_prefixes routes doc = Inr (add_local local s)"
    by (simp add: node_prefixes_def)
  from node_prefixes_result [OF nps] local nps show ?thesis by auto
qed

lemma build_of_local:
  assumes ord: "iteration_order order"
    and routes: "\<forall>r\<in>set routes. \<exists>p. route_prefix r = JStr p"
    and local: "local_ip_prefix doc = Inr local"
  shows "\<exists>snap. build_dynamic_topology order routes doc = Inr snap
           \<and> node_id ` set (nodes snap)
               = prefix_node_id ` (route_candidates routes \<union> set (add_local local []))"
proof -
  from node_prefixes_of_local [OF routes local] obtain nps
    where nps: "node_prefixes routes doc = Inr nps"
      and s: "set nps = route_candidates routes \<union> set (add_local local [])" by blast
  let ?G = "final_graph (order nps) (order (link_prefixes doc))"
  have "build_dynamic_topology order routes doc = Inr \<lparr>nodes = nodes_view ?G, edges = edges_view ?G\<rparr>"
    using nps by (rule build_eq)
  moreover have "node_id ` set (nodes_view ?G) = prefix_node_id ` set nps"
    using ord nps by (rule snapshot_node_ids)
  ultimately show ?thesis using s by simp
qed

lemma order_links: "iteration_order order \<Longrightarrow> set (order (link_prefixes doc)) = set (link_prefixes doc)"
  by (simp add: iteration_order_set distinct_link_prefixes)

lemma ends_pair: "edge_ends e = {u, v} \<longleftrightarrow>
    (edge_from e = u \<and> edge_to e = v) \<or> (edge_from e = v \<and> edge_to e = u)"
  by (auto simp: edge_ends_def doubleton_eq_iff)

lemma edge_between:
  assumes ok: "graph_ok G" and l: "adj_label G u v = Some l"
  shows "\<exists>e\<in>set (edges_view G). edge_ends e = {u, v} \<and> edge_label e = l"
proof -
  from edges_view_complete [OF ok l]
  consider "\<lparr>edge_from = u, edge_to = v, edge_label = l\<rparr> \<in> set (edges_view G)"
    | "\<lparr>edge_from = v, edge_to = u, edge_label = l\<rparr> \<in> set (edges_view G)" by blast
  then show ?thesis
  proof cases
    case 1
    then show ?thesis by (rule bexI [rotated]) (simp add: ends_pair)
  next
    case 2
    then show ?thesis by (rule bexI [rotated]) (simp add: ends_pair)
  qed
qed

lemma local_of_peer_id:
  "peer_id_lookup doc = Inr (JStr s) \<Longrightarrow>
   local_ip_prefix doc = Inr (Some (last (py_split ''//'' s) @ ''/32''))"
  by (simp add: local_ip_prefix_def local_prefix_try_def py_last_def py_split_nonempty)

lemma doc_with_link_peer_id: "peer_id_lookup doc_with_link = Inr (JStr ''bgp://192.168.7.1'')"
  by code_simp

lemma doc_with_link_links: "link_prefixes doc_with_link = [''10.85.12.5/32'']"
  by code_simp

lemma build_forward: "build_dynamic_topology insertion_order two_routes doc_with_link = Inr snapshot_forward"
  by code_simp

lemma count_in_distinct:
  assumes "distinct (map f xs)" and "k \<in> f ` set xs"
  shows "length (filter (\<lambda>x. f x = k) xs) = 1"
  using assms
proof (induction xs)
  case Nil
  then show ?case by simp
next
  case (Cons x xs)
  show ?case
  proof (cases "f x = k")
    case True
    with Cons.prems(1) have "k \<notin> f ` set xs" by auto
    then have "filter (\<lambda>x. f x = k) xs = []" by (auto simp: filter_empty_conv)
    with True show ?thesis by simp
  next
    case False
    with Cons show ?thesis by auto
  qed
qed

section \<open>The claims\<close>

subsection \<open>C1: the end-to-end example\<close>

lemma split_peer_id: "last (py_split ''//'' ''bgp://192.168.7.1'') = ''192.168.7.1''"
  by code_simp

lemma two_routes_set: "node_prefix_set two_routes [] = Inr [''192.168.7.1/32'', ''192.168.7.2/32'']"
  by code_simp

lemma final_forward:
  "\<lparr>nodes = nodes_view (final_graph [''192.168.7.1/32'', ''192.168.7.2/32''] [''10.85.12.5/32'']),
    edges = edges_view (final_graph [''192.168.7.1/32'', ''192.168.7.2/32''] [''10.85.12.5/32''])\<rparr>
   = snapshot_forward"
  by code_simp

lemma final_backward:
  "\<lparr>nodes = nodes_view (final_graph [''192.168.7.2/32'', ''192.168.7.1/32''] [''10.85.12.5/32'']),
    edges = edges_view (final_graph [''192.168.7.2/32'', ''192.168.7.1/32''] [''10.85.12.5/32''])\<rparr>
   = snapshot_backward"
  by code_simp

text \<open>
  Claim C1, as amended. For every document whose first peer-id is
  \<^verbatim>\<open>bgp://192.168.7.1\<close> and whose only string starting with \<^verbatim>\<open>10.85.\<close> is
  \<^verbatim>\<open>10.85.12.5/32\<close>, and the routes \<^verbatim>\<open>192.168.7.1/32\<close>, \<^verbatim>\<open>192.168.7.2/32\<close>, the
  builder returns the nodes R1 and R2 and one edge between them whose label is
  \<^verbatim>\<open>10.85.12.5/30\<close>: the address of the link string as it was advertised, with
  the mask replaced by \<^verbatim>\<open>/30\<close>. The order of the two nodes, and with it the
  direction in which the edge is reported, is the order in which the set of node
  prefixes is iterated.
\<close>

theorem end_to_end_label_C1:
  assumes ord: "iteration_order order"
    and pid: "peer_id_lookup doc = Inr (JStr ''bgp://192.168.7.1'')"
    and link: "link_prefixes doc = [''10.85.12.5/32'']"
  shows "build_dynamic_topology order two_routes doc = Inr snapshot_forward
       \<or> build_dynamic_topology order two_routes doc = Inr snapshot_backward"
proof -
  have "local_ip_prefix doc = Inr (Some ''192.168.7.1/32'')"
    using local_of_peer_id [OF pid] by (simp add: split_peer_id)
  then have nps: "node_prefixes two_routes doc = Inr [''192.168.7.1/32'', ''192.168.7.2/32'']"
    by (simp add: node_prefixes_def two_routes_set add_local_def set_add_def)
  have l: "order (link_prefixes doc) = [''10.85.12.5/32'']"
    using link iteration_order_single [OF ord] by simp
  from iteration_order_pair [OF ord, of "''192.168.7.1/32''" "''192.168.7.2/32''"]
  consider (fwd) "order [''192.168.7.1/32'', ''192.168.7.2/32''] = [''192.168.7.1/32'', ''192.168.7.2/32'']"
    | (bwd) "order [''192.168.7.1/32'', ''192.168.7.2/32''] = [''192.168.7.2/32'', ''192.168.7.1/32'']"
    by auto
  then show ?thesis
  proof cases
    case fwd
    with l show ?thesis by (simp only: build_eq [OF nps] final_forward simp_thms)
  next
    case bwd
    with l show ?thesis by (simp only: build_eq [OF nps] final_backward simp_thms)
  qed
qed

text \<open>The theorem at the document \<open>doc_with_link\<close>, iterated in insertion order.\<close>

theorem end_to_end_label_C1_witness:
  "iteration_order (insertion_order :: string list \<Rightarrow> string list)
 \<and> peer_id_lookup doc_with_link = Inr (JStr ''bgp://192.168.7.1'')
 \<and> link_prefixes doc_with_link = [''10.85.12.5/32'']
 \<and> (build_dynamic_topology insertion_order two_routes doc_with_link = Inr snapshot_forward
    \<or> build_dynamic_topology insertion_order two_routes doc_with_link = Inr snapshot_backward)"
  using end_to_end_label_C1 [OF iteration_order_insertion doc_with_link_peer_id doc_with_link_links]
    iteration_order_insertion doc_with_link_peer_id doc_with_link_links
  by simp

text \<open>
  Claim C1 as the specification states it fails: the label \<^verbatim>\<open>10.85.12.0/30\<close> is
  in no snapshot built from this input, in either order.
\<close>

theorem end_to_end_label_C1_counterexample:
  "build_dynamic_topology insertion_order two_routes doc_with_link \<noteq> Inr snapshot_of_spec
 \<and> build_dynamic_topology reverse_order two_routes doc_with_link \<noteq> Inr snapshot_of_spec
 \<and> build_dynamic_topology insertion_order two_routes doc_with_link = Inr snapshot_forward"
  by code_simp


subsection \<open>C2: change detection\<close>

text \<open>
  Claim C2, as amended. Change detection compares the new snapshot with the stored one
  as Python compares dicts of lists, item by item and in order. When the new snapshot
  is equal to the stored one in this sense, the store and the subscribers are left as
  they were and nothing is broadcast. When it differs, it is stored and broadcast
  once; the same snapshot fed a second time is not broadcast again.
\<close>

theorem change_detection_C2:
  "(latest_snapshot st = Some g \<longrightarrow> consider_snapshot ok g st = st)
 \<and> (latest_snapshot st \<noteq> Some g \<longrightarrow>
       latest_snapshot (consider_snapshot ok g st) = Some g
     \<and> broadcasts (consider_snapshot ok g st) = broadcasts st @ [g]
     \<and> broadcasts (consider_snapshot ok' g (consider_snapshot ok g st)) = broadcasts st @ [g])"
  by (auto simp: consider_snapshot_def broadcast_fields)

text \<open>The theorem at a server that holds the snapshot already, and at a fresh one.\<close>

theorem change_detection_C2_witness:
  "latest_snapshot (server_holding nodes_forward) = Some nodes_forward
 \<and> consider_snapshot always_delivers nodes_forward (server_holding nodes_forward) = server_holding nodes_forward
 \<and> latest_snapshot fresh_server \<noteq> Some nodes_forward
 \<and> latest_snapshot (consider_snapshot always_delivers nodes_forward fresh_server) = Some nodes_forward
 \<and> broadcasts (consider_snapshot always_delivers nodes_forward fresh_server) = [nodes_forward]
 \<and> broadcasts (consider_snapshot always_delivers nodes_forward
      (consider_snapshot always_delivers nodes_forward fresh_server)) = [nodes_forward]"
  using change_detection_C2 [of "server_holding nodes_forward" nodes_forward always_delivers always_delivers]
    change_detection_C2 [of fresh_server nodes_forward always_delivers always_delivers]
  by (simp add: server_holding_def fresh_server_def)

text \<open>
  Claim C2 as the specification states it fails: a snapshot with the same nodes and
  edges in another order counts as a change. It replaces the stored one and is
  broadcast.
\<close>

theorem change_detection_C2_counterexample:
  "set (nodes nodes_backward) = set (nodes nodes_forward)
 \<and> set (edges nodes_backward) = set (edges nodes_forward)
 \<and> consider_snapshot always_delivers nodes_backward (server_holding nodes_forward)
      \<noteq> server_holding nodes_forward
 \<and> latest_snapshot (consider_snapshot always_delivers nodes_backward (server_holding nodes_forward))
      = Some nodes_backward
 \<and> broadcasts (consider_snapshot always_delivers nodes_backward (server_holding nodes_forward))
      = [nodes_forward, nodes_backward]"
  by code_simp

subsection \<open>C3: anomalies during extraction\<close>

lemma tables_loop_append:
  "tables_loop (ts1 @ ts2) routes = ebind (tables_loop ts1 routes) (tables_loop ts2)"
  by (induction ts1 arbitrary: routes) (simp_all add: ebind_def split: sum.splits)

lemma peers_loop_append:
  "peers_loop (ps1 @ ps2) routes = ebind (peers_loop ps1 routes) (peers_loop ps2)"
  by (induction ps1 arbitrary: routes) (simp_all add: ebind_def split: sum.splits)

lemma table_routes_absent:
  "map_of t ''bgp-inet:ipv4-routes'' = None \<Longrightarrow> table_routes (JDict t) routes = Inr routes"
  by (simp add: table_routes_def)

lemma peer_routes_absent:
  "map_of p ''effective-rib-in'' = None \<Longrightarrow> peer_routes (JDict p) routes = Inr routes"
  by (simp add: peer_routes_def)

lemma tables_loop_skip:
  "map_of t ''bgp-inet:ipv4-routes'' = None \<Longrightarrow>
   tables_loop (ts1 @ JDict t # ts2) routes = tables_loop (ts1 @ ts2) routes"
  by (cases "tables_loop ts1 routes") (simp_all add: tables_loop_append table_routes_absent)

lemma peers_loop_skip:
  "map_of p ''effective-rib-in'' = None \<Longrightarrow>
   peers_loop (ps1 @ JDict p # ps2) routes = peers_loop (ps1 @ ps2) routes"
  by (cases "peers_loop ps1 routes") (simp_all add: peers_loop_append peer_routes_absent)

lemma extract_try_rib_doc:
  "extract_try rorder (rib_doc tables peers) =
     ebind (tables_loop tables []) (\<lambda>routes.
     ebind (peers_loop peers routes) (\<lambda>routes'.
     ebind (tuple_set routes' []) (\<lambda>unique. Inr (rorder unique))))"
  by (simp add: extract_try_def rib_doc_def)

lemma anomalous_raises:
  "extract_try insertion_order (rib_doc [table_of [''192.168.7.2/32'']] [peer_null_rib_in]) = Inl AttributeError"
  by code_simp

lemma no_routes_field: "map_of [(''attributes'', JNull)] ''bgp-inet:ipv4-routes'' = None"
  by simp

lemma no_rib_in_field: "map_of [(''peer-id'', JStr ''bgp://192.168.7.1'')] ''effective-rib-in'' = None"
  by simp

lemma skipped_table_value:
  "extract_routes insertion_order (rib_doc ([table_of [''192.168.7.2/32'']] @ []) [peer_of [''192.168.7.3/32'']])
     = [route_of ''192.168.7.2/32'', route_of ''192.168.7.3/32'']"
  by code_simp

lemma skipped_peer_value:
  "extract_routes insertion_order (rib_doc [table_of [''192.168.7.2/32'']] ([] @ [peer_of [''192.168.7.3/32'']]))
     = [route_of ''192.168.7.2/32'', route_of ''192.168.7.3/32'']"
  by code_simp

text \<open>
  Claim C3, as amended. The extractor never raises. An exception raised anywhere in
  its \<^verbatim>\<open>try\<close> block (a field of the wrong shape) makes it return the empty list,
  whatever the other branches had collected. A field that is only absent is an empty
  branch: a table without \<^verbatim>\<open>bgp-inet:ipv4-routes\<close> and a peer without
  \<^verbatim>\<open>effective-rib-in\<close> change nothing in the result, and the tables and peers
  beside them are still read.
\<close>

theorem extraction_anomaly_C3:
  "(extract_try rorder doc = Inl e \<longrightarrow> extract_routes rorder doc = [])
 \<and> (map_of t ''bgp-inet:ipv4-routes'' = None \<longrightarrow>
      extract_routes rorder (rib_doc (ts1 @ JDict t # ts2) peers)
        = extract_routes rorder (rib_doc (ts1 @ ts2) peers))
 \<and> (map_of p ''effective-rib-in'' = None \<longrightarrow>
      extract_routes rorder (rib_doc tables (ps1 @ JDict p # ps2))
        = extract_routes rorder (rib_doc tables (ps1 @ ps2)))"
  by (simp add: extract_routes_def extract_try_rib_doc tables_loop_skip peers_loop_skip)

text \<open>
  The theorem at a peer whose \<^verbatim>\<open>effective-rib-in\<close> is \<^verbatim>\<open>null\<close>, at a table
  without routes and at a peer without received routes.
\<close>

theorem extraction_anomaly_C3_witness:
  "extract_try insertion_order (rib_doc [table_of [''192.168.7.2/32'']] [peer_null_rib_in]) = Inl AttributeError
 \<and> extract_routes insertion_order (rib_doc [table_of [''192.168.7.2/32'']] [peer_null_rib_in]) = []
 \<and> map_of [(''attributes'', JNull)] ''bgp-inet:ipv4-routes'' = None
 \<and> extract_routes insertion_order
      (rib_doc ([table_of [''192.168.7.2/32'']] @ JDict [(''attributes'', JNull)] # []) [peer_of [''192.168.7.3/32'']])
      = [route_of ''192.168.7.2/32'', route_of ''192.168.7.3/32'']
 \<and> map_of [(''peer-id'', JStr ''bgp://192.168.7.1'')] ''effective-rib-in'' = None
 \<and> extract_routes insertion_order
      (rib_doc [table_of [''192.168.7.2/32'']] ([] @ JDict [(''peer-id'', JStr ''bgp://192.168.7.1'')] # [peer_of [''192.168.7.3/32'']]))
      = [route_of ''192.168.7.2/32'', route_of ''192.168.7.3/32'']"
proof -
  note t = extraction_anomaly_C3 [of insertion_order
      "rib_doc [table_of [''192.168.7.2/32'']] [peer_null_rib_in]" AttributeError
      "[(''attributes'', JNull)]" "[table_of [''192.168.7.2/32'']]" "[]" "[peer_of [''192.168.7.3/32'']]"
      "[(''peer-id'', JStr ''bgp://192.168.7.1'')]" "[table_of [''192.168.7.2/32'']]" "[]" "[peer_of [''192.168.7.3/32'']]"]
  from t anomalous_raises
  have a: "extract_routes insertion_order (rib_doc [table_of [''192.168.7.2/32'']] [peer_null_rib_in]) = []"
    by blast
  from t no_routes_field
  have "extract_routes insertion_order
      (rib_doc ([table_of [''192.168.7.2/32'']] @ JDict [(''attributes'', JNull)] # []) [peer_of [''192.168.7.3/32'']])
      = extract_routes insertion_order (rib_doc ([table_of [''192.168.7.2/32'']] @ []) [peer_of [''192.168.7.3/32'']])"
    by blast
  then have b: "extract_routes insertion_order
      (rib_doc ([table_of [''192.168.7.2/32'']] @ JDict [(''attributes'', JNull)] # []) [peer_of [''192.168.7.3/32'']])
      = [route_of ''192.168.7.2/32'', route_of ''192.168.7.3/32'']"
    by (simp only: skipped_table_value)
  from t no_rib_in_field
  have "extract_routes insertion_order
      (rib_doc [table_of [''192.168.7.2/32'']] ([] @ JDict [(''peer-id'', JStr ''bgp://192.168.7.1'')] # [peer_of [''192.168.7.3/32'']]))
      = extract_routes insertion_order (rib_doc [table_of [''192.168.7.2/32'']] ([] @ [peer_of [''192.168.7.3/32'']]))"
    by blast
  then have c: "extract_routes insertion_order
      (rib_doc [table_of [''192.168.7.2/32'']] ([] @ JDict [(''peer-id'', JStr ''bgp://192.168.7.1'')] # [peer_of [''192.168.7.3/32'']]))
      = [route_of ''192.168.7.2/32'', route_of ''192.168.7.3/32'']"
    by (simp only: skipped_peer_value)
  from anomalous_raises a no_routes_field b no_rib_in_field c show ?thesis by (intro conjI)
qed

text \<open>
  Claim C3 as the specification states it fails: the \<^verbatim>\<open>loc-rib\<close> table holds
  \<^verbatim>\<open>192.168.7.2/32\<close>, and with a peer whose \<^verbatim>\<open>effective-rib-in\<close> is \<^verbatim>\<open>null\<close>
  beside it the extractor returns nothing, while without that peer, or with the field
  absent, it returns the prefix.
\<close>

theorem extraction_anomaly_C3_counterexample:
  "extract_routes insertion_order (rib_doc [table_of [''192.168.7.2/32'']] [peer_null_rib_in]) = []
 \<and> extract_routes insertion_order (rib_doc [table_of [''192.168.7.2/32'']] [peer_no_rib_in])
      = [route_of ''192.168.7.2/32'']
 \<and> extract_routes insertion_order (rib_doc [table_of [''192.168.7.2/32'']] [])
      = [route_of ''192.168.7.2/32'']"
  by code_simp

subsection \<open>C4: the poll loop goes on\<close>

text \<open>
  Claim C4 fails on the code. A document that answers with status 200 and whose first
  peer has the peer-id \<^verbatim>\<open>null\<close> makes \<^verbatim>\<open>peer_id_str.split\<close> raise AttributeError,
  which \<^verbatim>\<open>except (KeyError, IndexError)\<close> does not catch: the exception leaves
  the builder, \<^verbatim>\<open>fetch_topology\<close> and the loop, before the sleep.
\<close>

theorem poll_loop_ends_C4:
  "extract_routes insertion_order doc_null_peer_id = []
 \<and> build_dynamic_topology insertion_order [] doc_null_peer_id = Inl AttributeError
 \<and> poll_loop insertion_order insertion_order [null_peer_id_cycle] fresh_server = Inl AttributeError"
  by code_simp

subsection \<open>C5: node construction\<close>

lemma abc_prefixes: "node_prefixes [route_of ''192.168.7.abc/32''] (JDict []) = Inr [''192.168.7.abc/32'']"
  by code_simp

text \<open>
  Claim C5, as amended. Node construction checks nothing about the address: every
  candidate prefix, whatever its shape, gives the node whose id is \<^verbatim>\<open>R\<close> followed by
  the text after the last dot of the part before the first \<^verbatim>\<open>/\<close>, labelled with that
  part. No step of the node loop raises or is skipped, the build goes on to the end,
  and the node ids of the snapshot are exactly those of the candidate prefixes.
\<close>

theorem node_construction_C5:
  assumes ord: "iteration_order order" and nps: "node_prefixes routes doc = Inr nps"
  shows "(\<forall>p G. node_step p G = Inr (add_node (prefix_node_id p) (prefix_ip p) G))
       \<and> (\<exists>snap. build_dynamic_topology order routes doc = Inr snap
             \<and> node_id ` set (nodes snap) = prefix_node_id ` set nps
             \<and> (\<forall>n\<in>set (nodes snap). \<exists>p\<in>set nps.
                   node_id n = prefix_node_id p \<and> node_label n = prefix_ip p))"
proof -
  let ?G = "final_graph (order nps) (order (link_prefixes doc))"
  have "build_dynamic_topology order routes doc = Inr \<lparr>nodes = nodes_view ?G, edges = edges_view ?G\<rparr>"
    using nps by (rule build_eq)
  moreover have "node_id ` set (nodes_view ?G) = prefix_node_id ` set nps"
    using ord nps by (rule snapshot_node_ids)
  moreover have "\<forall>n\<in>set (nodes_view ?G). \<exists>p\<in>set nps. node_id n = prefix_node_id p \<and> node_label n = prefix_ip p"
    using snapshot_node_entries [OF ord nps] by blast
  ultimately show ?thesis by (simp add: node_step_eq)
qed

text \<open>The theorem at the single route \<^verbatim>\<open>192.168.7.abc/32\<close>.\<close>

theorem node_construction_C5_witness:
  "iteration_order (insertion_order :: string list \<Rightarrow> string list)
 \<and> node_prefixes [route_of ''192.168.7.abc/32''] (JDict []) = Inr [''192.168.7.abc/32'']
 \<and> (\<exists>snap. build_dynamic_topology insertion_order [route_of ''192.168.7.abc/32''] (JDict []) = Inr snap
       \<and> node_id ` set (nodes snap) = prefix_node_id ` set [''192.168.7.abc/32''])"
proof -
  have io: "iteration_order (insertion_order :: string list \<Rightarrow> string list)"
    by (rule iteration_order_insertion)
  from node_construction_C5 [OF io abc_prefixes]
  have "\<exists>snap. build_dynamic_topology insertion_order [route_of ''192.168.7.abc/32''] (JDict []) = Inr snap
       \<and> node_id ` set (nodes snap) = prefix_node_id ` set [''192.168.7.abc/32'']"
    by blast
  with io abc_prefixes show ?thesis by (intro conjI)
qed

text \<open>
  Claim C5 as the specification states it fails: \<^verbatim>\<open>192.168.7.abc\<close> is not four
  numeric octets, and the prefix is not skipped: it gives the node \<^verbatim>\<open>Rabc\<close>.
\<close>

theorem node_construction_C5_counterexample:
  "build_dynamic_topology insertion_order [route_of ''192.168.7.abc/32''] (JDict [])
     = Inr \<lparr>nodes = [\<lparr>node_id = ''Rabc'', node_label = ''192.168.7.abc''\<rparr>], edges = []\<rparr>"
  by code_simp

subsection \<open>C6: the first peer identifier\<close>

lemma two_routes_strings: "\<forall>r\<in>set two_routes. \<exists>p. route_prefix r = JStr p"
  by (simp add: two_routes_def route_of_def route_prefix_def)

lemma no_peer_id_lookup: "peer_id_lookup doc_no_peer_id = Inl KeyError"
  by code_simp

lemma plain_peer_id_lookup: "peer_id_lookup doc_plain_peer_id = Inr (JStr ''garbage'')"
  by code_simp

text \<open>
  Claim C6, as amended. The routes are route entries, with a string as prefix. When
  looking up \<^verbatim>\<open>["bgp-rib:rib"][0]["peer"][0]["peer-id"]\<close> ends in a KeyError or an
  IndexError (a key is missing, a list is empty), there is no local prefix, the build
  succeeds, and the nodes of the snapshot are those of the candidate prefixes of the
  routes. When the lookup finds a string, the string is not checked against the form
  \<^verbatim>\<open>scheme://address\<close>: the text after its last \<^verbatim>\<open>//\<close>, with \<^verbatim>\<open>/32\<close> appended, is
  the local prefix and gives a node beside those of the routes.
\<close>

theorem missing_peer_id_C6:
  assumes ord: "iteration_order order"
    and routes: "\<forall>r\<in>set routes. \<exists>p. route_prefix r = JStr p"
  shows "(peer_id_lookup doc = Inl KeyError \<or> peer_id_lookup doc = Inl IndexError \<longrightarrow>
            local_ip_prefix doc = Inr None
          \<and> (\<exists>snap. build_dynamic_topology order routes doc = Inr snap
                \<and> node_id ` set (nodes snap) = prefix_node_id ` route_candidates routes))
       \<and> (peer_id_lookup doc' = Inr (JStr s) \<longrightarrow>
            local_ip_prefix doc' = Inr (Some (last (py_split ''//'' s) @ ''/32''))
          \<and> (\<exists>snap. build_dynamic_topology order routes doc' = Inr snap
                \<and> node_id ` set (nodes snap)
                    = prefix_node_id ` insert (last (py_split ''//'' s) @ ''/32'') (route_candidates routes)))"
proof (intro conjI impI)
  assume a: "peer_id_lookup doc = Inl KeyError \<or> peer_id_lookup doc = Inl IndexError"
  then show l: "local_ip_prefix doc = Inr None" by (rule local_absent)
  from build_of_local [OF ord routes l]
  show "\<exists>snap. build_dynamic_topology order routes doc = Inr snap
          \<and> node_id ` set (nodes snap) = prefix_node_id ` route_candidates routes"
    by (simp add: add_local_def)
next
  assume "peer_id_lookup doc' = Inr (JStr s)"
  then show l: "local_ip_prefix doc' = Inr (Some (last (py_split ''//'' s) @ ''/32''))"
    by (rule local_of_peer_id)
  from build_of_local [OF ord routes l]
  show "\<exists>snap. build_dynamic_topology order routes doc' = Inr snap
          \<and> node_id ` set (nodes snap)
              = prefix_node_id ` insert (last (py_split ''//'' s) @ ''/32'') (route_candidates routes)"
    by (simp add: add_local_def set_add_def)
qed

text \<open>The theorem at a first peer without peer-id, and at the peer-id \<^verbatim>\<open>garbage\<close>.\<close>

theorem missing_peer_id_C6_witness:
  "iteration_order (insertion_order :: string list \<Rightarrow> string list)
 \<and> peer_id_lookup doc_no_peer_id = Inl KeyError
 \<and> local_ip_prefix doc_no_peer_id = Inr None
 \<and> (\<exists>snap. build_dynamic_topology insertion_order two_routes doc_no_peer_id = Inr snap
       \<and> node_id ` set (nodes snap) = prefix_node_id ` route_candidates two_routes)
 \<and> peer_id_lookup doc_plain_peer_id = Inr (JStr ''garbage'')
 \<and> local_ip_prefix doc_plain_peer_id = Inr (Some (last (py_split ''//'' ''garbage'') @ ''/32''))"
proof -
  have io: "iteration_order (insertion_order :: string list \<Rightarrow> string list)"
    by (rule iteration_order_insertion)
  note t = missing_peer_id_C6 [OF io two_routes_strings, of doc_no_peer_id doc_plain_peer_id "''garbage''"]
  from t no_peer_id_lookup have a: "local_ip_prefix doc_no_peer_id = Inr None"
    and b: "\<exists>snap. build_dynamic_topology insertion_order two_routes doc_no_peer_id = Inr snap
       \<and> node_id ` set (nodes snap) = prefix_node_id ` route_candidates two_routes"
    by blast+
  from t plain_peer_id_lookup
  have c: "local_ip_prefix doc_plain_peer_id = Inr (Some (last (py_split ''//'' ''garbage'') @ ''/32''))"
    by blast
  from io no_peer_id_lookup a b plain_peer_id_lookup c show ?thesis by (intro conjI)
qed

text \<open>
  Claim C6 as the specification states it fails: the peer-id \<^verbatim>\<open>garbage\<close> is not of
  the form \<^verbatim>\<open>scheme://address\<close>, and the builder makes the local node
  \<^verbatim>\<open>Rgarbage\<close> of it.
\<close>

theorem missing_peer_id_C6_counterexample:
  "peer_id_lookup doc_plain_peer_id = Inr (JStr ''garbage'')
 \<and> build_dynamic_topology insertion_order [] doc_plain_peer_id
     = Inr \<lparr>nodes = [\<lparr>node_id = ''Rgarbage'', node_label = ''garbage''\<rparr>], edges = []\<rparr>"
  by code_simp

subsection \<open>C7: edges and their endpoints\<close>

lemma link_in_doc: "''10.85.12.5/32'' \<in> set (link_prefixes doc_with_link)"
  by (simp add: doc_with_link_links)

lemma link_ends_value: "link_ends ''10.85.12.5/32'' = Some (''R1'', ''R2'', ''10.85.12.5/30'')"
  by code_simp

lemma build_R1_only:
  "build_dynamic_topology insertion_order [route_of ''192.168.7.1/32''] doc_link_only
     = Inr \<lparr>nodes = [R1], edges = []\<rparr>"
  by code_simp

lemma link_only_links: "''10.85.12.0/30'' \<in> set (link_prefixes doc_link_only)"
  by code_simp

lemma link_only_ends: "link_ends ''10.85.12.0/30'' = Some (''R1'', ''R2'', ''10.85.12.0/30'')"
  by code_simp

text \<open>
  Claim C7. For a link string found in the document whose third piece has two
  characters, the snapshot has an edge between the two node ids read off it if and
  only if both ids are among the nodes of the snapshot. Every edge of the snapshot
  joins two of its nodes, and the nodes are exactly those made from the node prefixes
  in Part 1c: the edge loop adds none.
\<close>

theorem edge_iff_endpoints_C7:
  assumes ord: "iteration_order order"
    and build: "build_dynamic_topology order routes doc = Inr snap"
    and lp: "lp \<in> set (link_prefixes doc)"
    and ends: "link_ends lp = Some (u, v, l)"
  shows "((\<exists>e\<in>set (edges snap). edge_ends e = {u, v})
            \<longleftrightarrow> u \<in> node_id ` set (nodes snap) \<and> v \<in> node_id ` set (nodes snap))
       \<and> (\<forall>e\<in>set (edges snap).
            edge_from e \<in> node_id ` set (nodes snap) \<and> edge_to e \<in> node_id ` set (nodes snap))
       \<and> (\<exists>nps. node_prefixes routes doc = Inr nps
            \<and> node_id ` set (nodes snap) = prefix_node_id ` set nps)"
proof -
  from build obtain nps where nps: "node_prefixes routes doc = Inr nps"
    and ns: "nodes snap = nodes_view (final_graph (order nps) (order (link_prefixes doc)))"
    and es: "edges snap = edges_view (final_graph (order nps) (order (link_prefixes doc)))"
    by (rule build_result)
  let ?ls = "order (link_prefixes doc)"
  let ?G = "final_graph (order nps) ?ls"
  have ok: "graph_ok ?G" by (rule graph_ok_final_graph)
  have ids: "n \<in> node_id ` set (nodes snap) \<longleftrightarrow> has_node n ?G" for n
    by (simp only: ns node_id_set_view)
  have dangling: "has_node (edge_from e) ?G \<and> has_node (edge_to e) ?G" if "e \<in> set (edges snap)" for e
  proof -
    from that es have "e \<in> set (edges_view ?G)" by simp
    from edges_view_sound [OF ok this] show ?thesis by (rule adj_label_has_node [OF ok])
  qed
  have iff: "(\<exists>e\<in>set (edges snap). edge_ends e = {u, v}) \<longleftrightarrow> has_node u ?G \<and> has_node v ?G"
  proof
    assume "\<exists>e\<in>set (edges snap). edge_ends e = {u, v}"
    then obtain e where e: "e \<in> set (edges snap)" and uv: "edge_ends e = {u, v}" by blast
    from uv have "(edge_from e = u \<and> edge_to e = v) \<or> (edge_from e = v \<and> edge_to e = u)"
      by (simp only: ends_pair)
    with dangling [OF e] show "has_node u ?G \<and> has_node v ?G" by blast
  next
    assume "has_node u ?G \<and> has_node v ?G"
    then have u: "has_node u (node_graph (order nps))" and v: "has_node v (node_graph (order nps))"
      by (simp_all add: final_graph_def has_node_fold_edge_apply)
    from lp ord have "lp \<in> set ?ls" by (simp add: order_links)
    from adj_label_made [OF graph_ok_node_graph this ends u v]
    obtain l' where "adj_label ?G u v = Some l'" by (auto simp: final_graph_def)
    from edge_between [OF ok this] obtain e where "e \<in> set (edges_view ?G)" "edge_ends e = {u, v}"
      by blast
    with es show "\<exists>e\<in>set (edges snap). edge_ends e = {u, v}" by auto
  qed
  have c1: "(\<exists>e\<in>set (edges snap). edge_ends e = {u, v})
            \<longleftrightarrow> u \<in> node_id ` set (nodes snap) \<and> v \<in> node_id ` set (nodes snap)"
    by (simp only: ids iff)
  have c2: "\<forall>e\<in>set (edges snap).
      edge_from e \<in> node_id ` set (nodes snap) \<and> edge_to e \<in> node_id ` set (nodes snap)"
  proof
    fix e assume "e \<in> set (edges snap)"
    from dangling [OF this]
    show "edge_from e \<in> node_id ` set (nodes snap) \<and> edge_to e \<in> node_id ` set (nodes snap)"
      by (simp only: ids)
  qed
  have "node_id ` set (nodes snap) = prefix_node_id ` set nps"
    using snapshot_node_ids [OF ord nps, of "order (link_prefixes doc)"] by (simp only: ns)
  with nps have c3: "\<exists>nps. node_prefixes routes doc = Inr nps
            \<and> node_id ` set (nodes snap) = prefix_node_id ` set nps" by blast
  from c1 c2 c3 show ?thesis by (intro conjI)
qed

text \<open>
  The theorem at the two examples of the specification: with both R1 and R2 there is
  an edge, with R1 alone there is none.
\<close>

theorem edge_iff_endpoints_C7_witness:
  "iteration_order (insertion_order :: string list \<Rightarrow> string list)
 \<and> build_dynamic_topology insertion_order two_routes doc_with_link = Inr snapshot_forward
 \<and> ''10.85.12.5/32'' \<in> set (link_prefixes doc_with_link)
 \<and> link_ends ''10.85.12.5/32'' = Some (''R1'', ''R2'', ''10.85.12.5/30'')
 \<and> (\<exists>e\<in>set (edges snapshot_forward). edge_ends e = {''R1'', ''R2''})
 \<and> build_dynamic_topology insertion_order [route_of ''192.168.7.1/32''] doc_link_only
      = Inr \<lparr>nodes = [R1], edges = []\<rparr>
 \<and> ''10.85.12.0/30'' \<in> set (link_prefixes doc_link_only)
 \<and> link_ends ''10.85.12.0/30'' = Some (''R1'', ''R2'', ''10.85.12.0/30'')
 \<and> \<not> (\<exists>e\<in>set (edges \<lparr>nodes = [R1], edges = []\<rparr>). edge_ends e = {''R1'', ''R2''})"
proof -
  have io: "iteration_order (insertion_order :: string list \<Rightarrow> string list)"
    by (rule iteration_order_insertion)
  have both: "''R1'' \<in> node_id ` set (nodes snapshot_forward) \<and> ''R2'' \<in> node_id ` set (nodes snapshot_forward)"
    by (simp add: snapshot_forward_def R1_def R2_def)
  from edge_iff_endpoints_C7 [OF io build_forward link_in_doc link_ends_value] both
  have a: "\<exists>e\<in>set (edges snapshot_forward). edge_ends e = {''R1'', ''R2''}" by blast
  have one: "\<not> (''R1'' \<in> node_id ` set (nodes \<lparr>nodes = [R1], edges = []\<rparr>)
      \<and> ''R2'' \<in> node_id ` set (nodes \<lparr>nodes = [R1], edges = []\<rparr>))"
    by (simp add: R1_def)
  from edge_iff_endpoints_C7 [OF io build_R1_only link_only_links link_only_ends] one
  have b: "\<not> (\<exists>e\<in>set (edges \<lparr>nodes = [R1], edges = []\<rparr>). edge_ends e = {''R1'', ''R2''})" by blast
  from io build_forward link_in_doc link_ends_value a build_R1_only link_only_links link_only_ends b
  show ?thesis by (intro conjI)
qed

subsection \<open>C8: node ids are unique\<close>

lemma twice_build:
  "build_dynamic_topology insertion_order [route_of ''192.168.7.3/32'', route_of ''192.168.7.3/32''] (JDict [])
     = Inr \<lparr>nodes = [\<lparr>node_id = ''R3'', node_label = ''192.168.7.3''\<rparr>], edges = []\<rparr>"
  by code_simp

lemma twice_candidate:
  "''192.168.7.3/32'' \<in> route_candidates [route_of ''192.168.7.3/32'', route_of ''192.168.7.3/32'']"
proof -
  have "is_node_prefix ''192.168.7.3/32''" by code_simp
  then show ?thesis by (simp add: route_candidates_def route_of_def route_prefix_def)
qed

lemma R3_id: "prefix_node_id ''192.168.7.3/32'' = ''R3''"
  by code_simp

text \<open>
  Claim C8. No node id occurs twice in a snapshot, and every candidate prefix of the
  routes has exactly one node with its id: prefixes with the same last piece share
  one node, and a prefix listed more than once gives one node.
\<close>

theorem node_ids_unique_C8:
  assumes ord: "iteration_order order"
    and build: "build_dynamic_topology order routes doc = Inr snap"
  shows "distinct (map node_id (nodes snap))
       \<and> (\<forall>p\<in>route_candidates routes.
            length (filter (\<lambda>n. node_id n = prefix_node_id p) (nodes snap)) = 1)"
proof -
  from build obtain nps where nps: "node_prefixes routes doc = Inr nps"
    and ns: "nodes snap = nodes_view (final_graph (order nps) (order (link_prefixes doc)))"
    by (rule build_result)
  let ?G = "final_graph (order nps) (order (link_prefixes doc))"
  have ok: "graph_ok ?G" by (rule graph_ok_final_graph)
  have d: "distinct (map node_id (nodes snap))"
    using graph_ok_distinct [OF ok] by (simp only: ns node_ids_view)
  have ids: "node_id ` set (nodes snap) = prefix_node_id ` set nps"
    using snapshot_node_ids [OF ord nps, of "order (link_prefixes doc)"] by (simp only: ns)
  from node_prefixes_result [OF nps] have sub: "route_candidates routes \<subseteq> set nps" by blast
  have "\<forall>p\<in>route_candidates routes.
            length (filter (\<lambda>n. node_id n = prefix_node_id p) (nodes snap)) = 1"
  proof
    fix p assume "p \<in> route_candidates routes"
    with sub have "prefix_node_id p \<in> prefix_node_id ` set nps" by blast
    then have "prefix_node_id p \<in> node_id ` set (nodes snap)" by (simp only: ids)
    with d show "length (filter (\<lambda>n. node_id n = prefix_node_id p) (nodes snap)) = 1"
      by (rule count_in_distinct)
  qed
  with d show ?thesis by (intro conjI)
qed

text \<open>The theorem at a routes list with \<^verbatim>\<open>192.168.7.3/32\<close> twice: one node R3.\<close>

theorem node_ids_unique_C8_witness:
  "iteration_order (insertion_order :: string list \<Rightarrow> string list)
 \<and> build_dynamic_topology insertion_order [route_of ''192.168.7.3/32'', route_of ''192.168.7.3/32''] (JDict [])
     = Inr \<lparr>nodes = [\<lparr>node_id = ''R3'', node_label = ''192.168.7.3''\<rparr>], edges = []\<rparr>
 \<and> ''192.168.7.3/32'' \<in> route_candidates [route_of ''192.168.7.3/32'', route_of ''192.168.7.3/32'']
 \<and> length (filter (\<lambda>n. node_id n = ''R3'')
      (nodes \<lparr>nodes = [\<lparr>node_id = ''R3'', node_label = ''192.168.7.3''\<rparr>], edges = []\<rparr>)) = 1"
proof -
  have io: "iteration_order (insertion_order :: string list \<Rightarrow> string list)"
    by (rule iteration_order_insertion)
  from node_ids_unique_C8 [OF io twice_build] twice_candidate
  have "length (filter (\<lambda>n. node_id n = prefix_node_id ''192.168.7.3/32'')
      (nodes \<lparr>nodes = [\<lparr>node_id = ''R3'', node_label = ''192.168.7.3''\<rparr>], edges = []\<rparr>)) = 1"
    by blast
  then have a: "length (filter (\<lambda>n. node_id n = ''R3'')
      (nodes \<lparr>nodes = [\<lparr>node_id = ''R3'', node_label = ''192.168.7.3''\<rparr>], edges = []\<rparr>)) = 1"
    by (simp only: R3_id)
  from io twice_build twice_candidate a show ?thesis by (intro conjI)
qed

subsection \<open>C9: a failed fetch\<close>

lemma rich_not_empty: "latest_snapshot rich_server \<noteq> Some empty_snapshot"
  by (simp add: rich_server_def snapshot_forward_def empty_snapshot_def)

lemma failed_cycle_failed: "fetch_failed (outcome failed_cycle)"
  by (simp add: failed_cycle_def fetch_failed_def)

text \<open>
  Claim C9. When the fetch fails (a connection error, or a status other than 200), the
  snapshot of the round is the one that extraction and building give on the empty
  document, which is the empty snapshot. It goes through the same comparison with the
  stored snapshot as any other: when the store holds something else, the empty
  snapshot replaces it and is broadcast.
\<close>

theorem fetch_failure_snapshot_C9:
  assumes ord: "iteration_order order" and fail: "fetch_failed (outcome c)"
  shows "fetch_topology order rorder (outcome c)
           = build_dynamic_topology order (extract_routes rorder (JDict [])) (JDict [])
       \<and> fetch_topology order rorder (outcome c) = Inr empty_snapshot
       \<and> poll_cycle order rorder c st = Inr (consider_snapshot (send_ok c) empty_snapshot st)
       \<and> (latest_snapshot st \<noteq> Some empty_snapshot \<longrightarrow>
            latest_snapshot (consider_snapshot (send_ok c) empty_snapshot st) = Some empty_snapshot
          \<and> broadcasts (consider_snapshot (send_ok c) empty_snapshot st) = broadcasts st @ [empty_snapshot])"
proof -
  have ft: "fetch_topology order rorder (outcome c) = Inr empty_snapshot"
    using fail by (simp add: fetch_topology_def fetch_failed_doc)
  have b: "build_dynamic_topology order (extract_routes rorder (JDict [])) (JDict []) = Inr empty_snapshot"
    using ord by (simp add: extract_routes_empty_doc build_empty_doc)
  have pc: "poll_cycle order rorder c st = Inr (consider_snapshot (send_ok c) empty_snapshot st)"
    by (simp add: poll_cycle_def ft)
  have ov: "latest_snapshot st \<noteq> Some empty_snapshot \<longrightarrow>
            latest_snapshot (consider_snapshot (send_ok c) empty_snapshot st) = Some empty_snapshot
          \<and> broadcasts (consider_snapshot (send_ok c) empty_snapshot st) = broadcasts st @ [empty_snapshot]"
    by (auto simp: consider_snapshot_def broadcast_fields)
  from ft b pc ov show ?thesis by simp
qed

text \<open>The theorem at a server that holds the two-node topology, after a connection error.\<close>

theorem fetch_failure_snapshot_C9_witness:
  "iteration_order (insertion_order :: string list \<Rightarrow> string list)
 \<and> fetch_failed (outcome failed_cycle)
 \<and> latest_snapshot rich_server = Some snapshot_forward
 \<and> fetch_topology insertion_order insertion_order (outcome failed_cycle)
      = build_dynamic_topology insertion_order (extract_routes insertion_order (JDict [])) (JDict [])
 \<and> fetch_topology insertion_order insertion_order (outcome failed_cycle) = Inr empty_snapshot
 \<and> poll_cycle insertion_order insertion_order failed_cycle rich_server
      = Inr (consider_snapshot (send_ok failed_cycle) empty_snapshot rich_server)
 \<and> latest_snapshot (consider_snapshot (send_ok failed_cycle) empty_snapshot rich_server) = Some empty_snapshot
 \<and> broadcasts (consider_snapshot (send_ok failed_cycle) empty_snapshot rich_server)
      = [snapshot_forward, empty_snapshot]"
proof -
  have io: "iteration_order (insertion_order :: string list \<Rightarrow> string list)"
    by (rule iteration_order_insertion)
  note t = fetch_failure_snapshot_C9 [OF io failed_cycle_failed, of insertion_order rich_server]
  have stored: "latest_snapshot rich_server = Some snapshot_forward"
    by (simp add: rich_server_def)
  from t have a: "fetch_topology insertion_order insertion_order (outcome failed_cycle)
      = build_dynamic_topology insertion_order (extract_routes insertion_order (JDict [])) (JDict [])"
    by (rule conjunct1)
  from t have b: "fetch_topology insertion_order insertion_order (outcome failed_cycle) = Inr empty_snapshot"
    by blast
  from t have c: "poll_cycle insertion_order insertion_order failed_cycle rich_server
      = Inr (consider_snapshot (send_ok failed_cycle) empty_snapshot rich_server)"
    by blast
  from t rich_not_empty
  have d: "latest_snapshot (consider_snapshot (send_ok failed_cycle) empty_snapshot rich_server) = Some empty_snapshot"
    and e: "broadcasts (consider_snapshot (send_ok failed_cycle) empty_snapshot rich_server)
              = broadcasts rich_server @ [empty_snapshot]"
    by blast+
  have "broadcasts rich_server @ [empty_snapshot] = [snapshot_forward, empty_snapshot]"
    by (simp add: rich_server_def)
  with e have e': "broadcasts (consider_snapshot (send_ok failed_cycle) empty_snapshot rich_server)
              = [snapshot_forward, empty_snapshot]"
    by (rule trans)
  from io failed_cycle_failed stored a b c d e' show ?thesis by (intro conjI)
qed

subsection \<open>C10: one edge for a pair of routers\<close>

lemma two_links_build:
  "build_dynamic_topology insertion_order two_routes doc_two_links = Inr snapshot_two_links"
  by code_simp

lemma two_links_order:
  "insertion_order (link_prefixes doc_two_links) = [''10.85.12.0/30''] @ ''10.85.21.0/30'' # []"
  by code_simp

lemma later_link_ends: "link_ends ''10.85.21.0/30'' = Some (''R2'', ''R1'', ''10.85.21.0/30'')"
  by code_simp

lemma earlier_link_ends: "link_ends ''10.85.12.0/30'' = Some (''R1'', ''R2'', ''10.85.12.0/30'')"
  by code_simp

text \<open>
  Claim C10. No two edges of a snapshot have the same unordered pair of endpoints.
  The label of every edge is the one read off a single link string of the document
  whose two ids are the endpoints, in one order or the other; and when several link
  strings name the same two routers, the edge carries the label of the one processed
  last.
\<close>

theorem single_edge_per_pair_C10:
  assumes ord: "iteration_order order"
    and build: "build_dynamic_topology order routes doc = Inr snap"
  shows "distinct (map edge_ends (edges snap))
       \<and> (\<forall>e\<in>set (edges snap). \<exists>lp\<in>set (link_prefixes doc).
             link_ends lp = Some (edge_from e, edge_to e, edge_label e)
           \<or> link_ends lp = Some (edge_to e, edge_from e, edge_label e))
       \<and> (\<forall>pre lp post u v l.
             order (link_prefixes doc) = pre @ lp # post \<longrightarrow>
             link_ends lp = Some (u, v, l) \<longrightarrow>
             u \<in> node_id ` set (nodes snap) \<longrightarrow>
             v \<in> node_id ` set (nodes snap) \<longrightarrow>
             (\<forall>q\<in>set post. \<forall>l'. link_ends q \<noteq> Some (u, v, l') \<and> link_ends q \<noteq> Some (v, u, l')) \<longrightarrow>
             (\<exists>e\<in>set (edges snap). edge_ends e = {u, v} \<and> edge_label e = l))"
proof -
  from build obtain nps where nps: "node_prefixes routes doc = Inr nps"
    and ns: "nodes snap = nodes_view (final_graph (order nps) (order (link_prefixes doc)))"
    and es: "edges snap = edges_view (final_graph (order nps) (order (link_prefixes doc)))"
    by (rule build_result)
  let ?ls = "order (link_prefixes doc)"
  let ?N = "node_graph (order nps)"
  let ?G = "final_graph (order nps) ?ls"
  have ok: "graph_ok ?G" by (rule graph_ok_final_graph)
  have okN: "graph_ok ?N" by (rule graph_ok_node_graph)
  have G: "?G = fold edge_apply ?ls ?N" by (simp add: final_graph_def)
  have ids: "n \<in> node_id ` set (nodes snap) \<longleftrightarrow> has_node n ?N" for n
    by (simp only: ns node_id_set_view G has_node_fold_edge_apply)
  have c1: "distinct (map edge_ends (edges snap))"
    using edges_view_distinct_ends [OF ok] by (simp only: es)
  have c2: "\<forall>e\<in>set (edges snap). \<exists>lp\<in>set (link_prefixes doc).
             link_ends lp = Some (edge_from e, edge_to e, edge_label e)
           \<or> link_ends lp = Some (edge_to e, edge_from e, edge_label e)"
  proof
    fix e assume "e \<in> set (edges snap)"
    then have "e \<in> set (edges_view ?G)" by (simp only: es)
    from edges_view_sound [OF ok this]
    have "adj_label (fold edge_apply ?ls ?N) (edge_from e) (edge_to e) = Some (edge_label e)"
      by (simp only: G)
    from adj_label_origin [OF okN this]
    have "\<exists>lp\<in>set ?ls. link_ends lp = Some (edge_from e, edge_to e, edge_label e)
           \<or> link_ends lp = Some (edge_to e, edge_from e, edge_label e)"
      by (simp add: adj_label_node_graph)
    then show "\<exists>lp\<in>set (link_prefixes doc).
             link_ends lp = Some (edge_from e, edge_to e, edge_label e)
           \<or> link_ends lp = Some (edge_to e, edge_from e, edge_label e)"
      by (simp only: order_links [OF ord])
  qed
  have c3: "\<exists>e\<in>set (edges snap). edge_ends e = {u, v} \<and> edge_label e = l"
    if split: "order (link_prefixes doc) = pre @ lp # post"
      and ends: "link_ends lp = Some (u, v, l)"
      and u: "u \<in> node_id ` set (nodes snap)" and v: "v \<in> node_id ` set (nodes snap)"
      and post: "\<forall>q\<in>set post. \<forall>l'. link_ends q \<noteq> Some (u, v, l') \<and> link_ends q \<noteq> Some (v, u, l')"
    for pre lp post u v l
  proof -
    from u v have "has_node u ?N" "has_node v ?N" by (simp_all only: ids)
    from adj_label_last [OF okN ends this post, of pre]
    have "adj_label ?G u v = Some l" by (simp only: final_graph_def split)
    from edge_between [OF ok this] show ?thesis by (simp only: es)
  qed
  from c1 c2 c3 show ?thesis by blast
qed

text \<open>
  The theorem at a document with \<^verbatim>\<open>10.85.12.0/30\<close> and \<^verbatim>\<open>10.85.21.0/30\<close>: one
  edge, labelled by the second.
\<close>

theorem single_edge_per_pair_C10_witness:
  "iteration_order (insertion_order :: string list \<Rightarrow> string list)
 \<and> build_dynamic_topology insertion_order two_routes doc_two_links = Inr snapshot_two_links
 \<and> insertion_order (link_prefixes doc_two_links) = [''10.85.12.0/30''] @ ''10.85.21.0/30'' # []
 \<and> link_ends ''10.85.12.0/30'' = Some (''R1'', ''R2'', ''10.85.12.0/30'')
 \<and> link_ends ''10.85.21.0/30'' = Some (''R2'', ''R1'', ''10.85.21.0/30'')
 \<and> distinct (map edge_ends (edges snapshot_two_links))
 \<and> length (edges snapshot_two_links) = 1
 \<and> (\<exists>e\<in>set (edges snapshot_two_links). edge_ends e = {''R2'', ''R1''} \<and> edge_label e = ''10.85.21.0/30'')"
proof -
  have io: "iteration_order (insertion_order :: string list \<Rightarrow> string list)"
    by (rule iteration_order_insertion)
  note t = single_edge_per_pair_C10 [OF io two_links_build]
  from t have a: "distinct (map edge_ends (edges snapshot_two_links))" by (rule conjunct1)
  have ids: "''R2'' \<in> node_id ` set (nodes snapshot_two_links)" "''R1'' \<in> node_id ` set (nodes snapshot_two_links)"
    by (simp_all add: snapshot_two_links_def R1_def R2_def)
  have post: "\<forall>q\<in>set []. \<forall>l'. link_ends q \<noteq> Some (''R2'', ''R1'', l') \<and> link_ends q \<noteq> Some (''R1'', ''R2'', l')"
    by simp
  from t two_links_order later_link_ends ids post
  have b: "\<exists>e\<in>set (edges snapshot_two_links). edge_ends e = {''R2'', ''R1''} \<and> edge_label e = ''10.85.21.0/30''"
    by blast
  have c: "length (edges snapshot_two_links) = 1" by (simp add: snapshot_two_links_def)
  from io two_links_build two_links_order earlier_link_ends later_link_ends a c b
  show ?thesis by (intro conjI)
qed

end
